theory Spec2Isabelle
  imports Complex_Main
begin

section \<open>Python and numpy values\<close>

text \<open>
  Exceptions of the module are values: every function that can raise returns
  \<open>error + 'a\<close>, with \<open>Inl\<close> the exception. \<open>ExternalError\<close> stands for whatever
  the PDB parser or the structure predictor raises.
\<close>

datatype error =
    AssertionError
  | IndexError
  | KeyError string
  | FileNotFoundError string
  | OverflowError
  | ExternalError string

text \<open>
  A numpy float is a finite number, an infinity or NaN. The operations below are the
  exact ones on these values, with numpy's results where it leaves the finite numbers:
  \<open>0 / 0\<close> and \<open>inf - inf\<close> are NaN, \<open>x / 0\<close> is an infinity, and NaN propagates.
  numpy warns there and raises nothing, so the operations are total. The distances and
  the normalised vectors are computed with these operations as they are; the
  quaternion, whose value depends on the rounding, rounds each result with the rounding
  of \<open>float_arith\<close> below. The sign of zero is not modelled.
\<close>

datatype npfloat = Fin real | PInf | NInf | NaN

fun fneg :: "npfloat \<Rightarrow> npfloat" where
  "fneg (Fin x) = Fin (- x)"
| "fneg PInf = NInf"
| "fneg NInf = PInf"
| "fneg NaN = NaN"

fun fadd :: "npfloat \<Rightarrow> npfloat \<Rightarrow> npfloat" where
  "fadd (Fin x) (Fin y) = Fin (x + y)"
| "fadd NaN _ = NaN"
| "fadd _ NaN = NaN"
| "fadd PInf NInf = NaN"
| "fadd NInf PInf = NaN"
| "fadd PInf _ = PInf"
| "fadd _ PInf = PInf"
| "fadd NInf _ = NInf"
| "fadd _ NInf = NInf"

definition fsub :: "npfloat \<Rightarrow> npfloat \<Rightarrow> npfloat" where
  "fsub a b = fadd a (fneg b)"

fun fmul :: "npfloat \<Rightarrow> npfloat \<Rightarrow> npfloat" where
  "fmul (Fin x) (Fin y) = Fin (x * y)"
| "fmul NaN _ = NaN"
| "fmul _ NaN = NaN"
| "fmul PInf (Fin y) = (if y = 0 then NaN else if 0 < y then PInf else NInf)"
| "fmul NInf (Fin y) = (if y = 0 then NaN else if 0 < y then NInf else PInf)"
| "fmul (Fin x) PInf = (if x = 0 then NaN else if 0 < x then PInf else NInf)"
| "fmul (Fin x) NInf = (if x = 0 then NaN else if 0 < x then NInf else PInf)"
| "fmul PInf PInf = PInf"
| "fmul NInf NInf = PInf"
| "fmul PInf NInf = NInf"
| "fmul NInf PInf = NInf"

fun fdiv :: "npfloat \<Rightarrow> npfloat \<Rightarrow> npfloat" where
  "fdiv (Fin x) (Fin y) =
     (if y = 0 then (if x = 0 then NaN else if 0 < x then PInf else NInf)
      else Fin (x / y))"
| "fdiv NaN _ = NaN"
| "fdiv _ NaN = NaN"
| "fdiv (Fin x) PInf = Fin 0"
| "fdiv (Fin x) NInf = Fin 0"
| "fdiv PInf (Fin y) = (if 0 \<le> y then PInf else NInf)"
| "fdiv NInf (Fin y) = (if 0 \<le> y then NInf else PInf)"
| "fdiv _ _ = NaN"

fun fsqrt :: "npfloat \<Rightarrow> npfloat" where
  "fsqrt (Fin x) = (if x < 0 then NaN else Fin (sqrt x))"
| "fsqrt PInf = PInf"
| "fsqrt NInf = NaN"
| "fsqrt NaN = NaN"


text \<open>A coordinate array of shape (3,) and the array of shape (4,) of a quaternion.\<close>

type_synonym vec3 = "npfloat \<times> npfloat \<times> npfloat"

type_synonym vec4 = "npfloat \<times> npfloat \<times> npfloat \<times> npfloat"

fun vsub :: "vec3 \<Rightarrow> vec3 \<Rightarrow> vec3" where
  "vsub (a1, a2, a3) (b1, b2, b3) = (fsub a1 b1, fsub a2 b2, fsub a3 b3)"

fun vmul :: "vec3 \<Rightarrow> vec3 \<Rightarrow> vec3" where
  "vmul (a1, a2, a3) (b1, b2, b3) = (fmul a1 b1, fmul a2 b2, fmul a3 b3)"

fun vsum :: "vec3 \<Rightarrow> npfloat" where
  "vsum (a1, a2, a3) = fadd (fadd a1 a2) a3"

fun vdiv :: "vec3 \<Rightarrow> npfloat \<Rightarrow> vec3" where
  "vdiv (a1, a2, a3) d = (fdiv a1 d, fdiv a2 d, fdiv a3 d)"

definition norm3 :: "vec3 \<Rightarrow> npfloat" where
  "norm3 v = fsqrt (vsum (vmul v v))"

definition dot :: "vec3 \<Rightarrow> vec3 \<Rightarrow> npfloat" where
  "dot v1 v2 = vsum (vmul v1 v2)"

fun dot4 :: "vec4 \<Rightarrow> vec4 \<Rightarrow> npfloat" where
  "dot4 (a1, a2, a3, a4) (b1, b2, b3, b4) =
     fadd (fadd (fadd (fmul a1 b1) (fmul a2 b2)) (fmul a3 b3)) (fmul a4 b4)"

text \<open>
  Where the value of a result matters, the rounding is a parameter. An elementwise numpy
  operation delivers the exact result rounded to the precision of its array (and an
  infinity where that overflows): \<open>round_v\<close> for the arrays of the vectors, which have the
  precision the parser gives the coordinates, and \<open>round_q\<close> for the float64 array of the
  quaternion. \<open>rounded\<close> applies a rounding to a finite exact result and leaves an
  infinity or NaN as it is. \<open>np.dot\<close> is computed by a library routine that may fuse the
  multiplications with the additions or reorder them, so the whole product is a
  parameter: \<open>dot_v\<close> on the vectors and \<open>dot_q\<close> on the quaternion array.
\<close>

record float_arith =
  round_v :: "real \<Rightarrow> npfloat"
  dot_v :: "vec3 \<Rightarrow> vec3 \<Rightarrow> npfloat"
  round_q :: "real \<Rightarrow> npfloat"
  dot_q :: "vec4 \<Rightarrow> vec4 \<Rightarrow> npfloat"

definition rounded :: "(real \<Rightarrow> npfloat) \<Rightarrow> npfloat \<Rightarrow> npfloat" where
  "rounded rnd x = (case x of Fin a \<Rightarrow> rnd a | _ \<Rightarrow> x)"

text \<open>
  \<open>np.cross\<close> multiplies and subtracts elementwise, \<open>np.sum(v ** 2)\<close> squares
  elementwise and adds from the left, and \<open>q /= norm\<close> divides elementwise.
\<close>

fun cross :: "(real \<Rightarrow> npfloat) \<Rightarrow> vec3 \<Rightarrow> vec3 \<Rightarrow> vec3" where
  "cross rnd (a1, a2, a3) (b1, b2, b3) =
     (rounded rnd (fsub (rounded rnd (fmul a2 b3)) (rounded rnd (fmul a3 b2))),
      rounded rnd (fsub (rounded rnd (fmul a3 b1)) (rounded rnd (fmul a1 b3))),
      rounded rnd (fsub (rounded rnd (fmul a1 b2)) (rounded rnd (fmul a2 b1))))"

fun sum_of_squares :: "(real \<Rightarrow> npfloat) \<Rightarrow> vec3 \<Rightarrow> npfloat" where
  "sum_of_squares rnd (a1, a2, a3) =
     rounded rnd (fadd (rounded rnd (fadd (rounded rnd (fmul a1 a1)) (rounded rnd (fmul a2 a2))))
       (rounded rnd (fmul a3 a3)))"

fun qdiv :: "(real \<Rightarrow> npfloat) \<Rightarrow> vec4 \<Rightarrow> npfloat \<Rightarrow> vec4" where
  "qdiv rnd (w, x, y, z) d =
     (rounded rnd (fdiv w d), rounded rnd (fdiv x d), rounded rnd (fdiv y d), rounded rnd (fdiv z d))"

text \<open>
  The arithmetic without rounding. It agrees with every IEEE arithmetic wherever all
  the exact results are floats, as they are in the examples that use it.
\<close>

definition exact_arith :: float_arith where
  "exact_arith = \<lparr>round_v = Fin, dot_v = dot, round_q = Fin, dot_q = dot4\<rparr>"

text \<open>
  A Python float is an IEEE binary64 number, written here with its integer mantissa and
  binary exponent: \<open>F64 m e\<close> is the number \<open>m * 2 ^ e\<close>. Arithmetic on Python floats
  rounds: \<open>round64 m e\<close> is the binary64 number nearest to \<open>m * 2 ^ e\<close>, ties to the even
  mantissa, with 53 bits of mantissa, the subnormal numbers below \<open>2 ^ -1022\<close> and
  infinity from \<open>2 ^ 1024\<close> on. The sign of zero is not modelled.
\<close>

datatype float64 = F64 int int | F64_PInf | F64_NInf | F64_NaN

definition pow2 :: "int \<Rightarrow> real" where
  "pow2 e = (if 0 \<le> e then 2 ^ nat e else 1 / 2 ^ nat (- e))"

text \<open>The number of binary digits of a natural number (\<open>int.bit_length\<close>).\<close>

fun bitlen :: "nat \<Rightarrow> nat" where
  "bitlen n = (if n = 0 then 0 else Suc (bitlen (n div 2)))"

declare bitlen.simps [simp del]

text \<open>\<open>m / 2 ^ s\<close> rounded to the nearest integer, a tie to the even one.\<close>

definition round_half_even :: "nat \<Rightarrow> nat \<Rightarrow> nat" where
  "round_half_even m s =
     (let q = m div 2 ^ s; r = m mod 2 ^ s
      in if 2 * r < 2 ^ s then q
         else if 2 ^ s < 2 * r then q + 1
         else if even q then q else q + 1)"

text \<open>
  Rounding \<open>m * 2 ^ e\<close>: the last place kept has the exponent \<open>l + e - 53\<close> for a
  mantissa of \<open>l\<close> bits, and never less than \<open>-1074\<close>; \<open>s\<close> bits are rounded away. The
  result overflows when it reaches \<open>2 ^ 1024\<close>, that is when the rounded mantissa and its
  exponent together have more than 1024 bits.
\<close>

definition round64 :: "int \<Rightarrow> int \<Rightarrow> float64" where
  "round64 m e =
     (let l = int (bitlen (nat \<bar>m\<bar>));
          s = nat (max (l + e - 53) (- 1074) - e);
          q = int (round_half_even (nat \<bar>m\<bar>) s)
      in if 1024 < int (bitlen (nat q)) + e + int s
         then (if m < 0 then F64_NInf else F64_PInf)
         else F64 (sgn m * q) (e + int s))"

fun f64_mul :: "float64 \<Rightarrow> float64 \<Rightarrow> float64" where
  "f64_mul (F64 m1 e1) (F64 m2 e2) = round64 (m1 * m2) (e1 + e2)"
| "f64_mul F64_NaN _ = F64_NaN"
| "f64_mul _ F64_NaN = F64_NaN"
| "f64_mul F64_PInf (F64 m e) = (if m = 0 then F64_NaN else if 0 < m then F64_PInf else F64_NInf)"
| "f64_mul F64_NInf (F64 m e) = (if m = 0 then F64_NaN else if 0 < m then F64_NInf else F64_PInf)"
| "f64_mul (F64 m e) F64_PInf = (if m = 0 then F64_NaN else if 0 < m then F64_PInf else F64_NInf)"
| "f64_mul (F64 m e) F64_NInf = (if m = 0 then F64_NaN else if 0 < m then F64_NInf else F64_PInf)"
| "f64_mul F64_PInf F64_PInf = F64_PInf"
| "f64_mul F64_NInf F64_NInf = F64_PInf"
| "f64_mul F64_PInf F64_NInf = F64_NInf"
| "f64_mul F64_NInf F64_PInf = F64_NInf"

text \<open>
  The conversion of an \<open>int\<close> operand of a float operation: the nearest float, and
  OverflowError where that is beyond the largest one.
\<close>

definition float_of_int :: "int \<Rightarrow> error + float64" where
  "float_of_int i =
     (case round64 i 0 of
        F64 m e \<Rightarrow> Inr (F64 m e)
      | _ \<Rightarrow> Inl OverflowError)"

section \<open>The parsed structure\<close>

text \<open>
  What \<open>PDBParser.get_structure\<close> returns, as far as the module reads it: a structure
  is a list of models, a model a list of chains, a chain a list of residues. A residue
  has its id \<open>(hetero flag, sequence number, insertion code)\<close> and its atoms by name
  (\<open>child_dict\<close>). The parser itself is a library: the functions below take it as the
  parameter \<open>get_structure\<close>.
\<close>

record atom =
  atom_name :: string
  coord :: vec3

record residue =
  res_id :: "string \<times> int \<times> string"
  resname :: string
  child_dict :: "(string \<times> atom) list"

record chain =
  chain_id :: string
  chain_residues :: "residue list"

type_synonym pdb_model = "chain list"

type_synonym pdb_structure = "pdb_model list"

text \<open>\<open>name in residue\<close> and \<open>residue[name]\<close>.\<close>

definition contains :: "residue \<Rightarrow> string \<Rightarrow> bool" where
  "contains residue name = (map_of (child_dict residue) name \<noteq> None)"

definition getitem :: "residue \<Rightarrow> string \<Rightarrow> error + atom" where
  "getitem residue name =
     (case map_of (child_dict residue) name of
        None \<Rightarrow> Inl (KeyError name)
      | Some a \<Rightarrow> Inr a)"

text \<open>
  The residues in the order of
  \<open>for model in structure: for chain in model: for residue in chain\<close>.
\<close>

definition structure_residues :: "pdb_structure \<Rightarrow> residue list" where
  "structure_residues s = concat (map (\<lambda>model. concat (map chain_residues model)) s)"

section \<open>protein.py\<close>

text \<open>
  The literal \<open>3.8\<close> denotes the float nearest to 3.8, which is
  \<open>8556839292003942 * 2 ^ -51\<close>. \<open>get_max_physical_protein_length_A\<close> subtracts on
  integers, converts the difference to a float and multiplies two floats.
\<close>

definition AMINO_ACID_LENGTH_ANGSTROM :: float64 where
  "AMINO_ACID_LENGTH_ANGSTROM = F64 8556839292003942 (- 51)"

definition get_max_physical_protein_length_A :: "int \<Rightarrow> error + float64" where
  "get_max_physical_protein_length_A n_amino_acids =
     (case float_of_int (n_amino_acids - 1) of
        Inl e \<Rightarrow> Inl e
      | Inr x \<Rightarrow> Inr (f64_mul x AMINO_ACID_LENGTH_ANGSTROM))"

subsection \<open>The cache of PDB files\<close>

text \<open>\<open>str\<close> of an integer: decimal digits, a minus sign before a negative one.\<close>

definition digit_char :: "nat \<Rightarrow> char" where
  "digit_char d = ''0123456789'' ! d"

fun str_nat :: "nat \<Rightarrow> string" where
  "str_nat n = (if n < 10 then [digit_char n] else str_nat (n div 10) @ [digit_char (n mod 10)])"

declare str_nat.simps [simp del]

definition str_int :: "int \<Rightarrow> string" where
  "str_int i = (if i < 0 then ''-'' @ str_nat (nat (- i)) else str_nat (nat i))"

text \<open>
  \<open>make_pdb_path\<close>. The builtin \<open>hash\<close> of a string is keyed by a secret the
  interpreter draws when it starts (unless \<open>PYTHONHASHSEED\<close> fixes it), so the function
  a process computes with is a parameter, \<open>hash\<close>; two processes are two such functions.
  \<open>cache_path\<close> is the directory \<open>PDB_CACHE_PATH\<close>, a parameter as well: the module
  writes it as \<open>Path(__file__.parent / "pdb")\<close>, which asks a string for \<open>parent\<close>; the
  directory \<open>pdb\<close> beside the file is what the examples below take.
\<close>

definition make_pdb_path :: "string \<Rightarrow> (string \<Rightarrow> int) \<Rightarrow> string \<Rightarrow> string" where
  "make_pdb_path cache_path hash sequence =
     (let hashed_sequence = hash sequence
      in cache_path @ ''/'' @ ''P'' @ str_int hashed_sequence @ ''.pdb'')"

text \<open>
  The state outside the module: the files (path to contents), the directories that
  exist, and the batches the structure predictor was called with, oldest first.
\<close>

record world =
  files :: "string \<rightharpoonup> string"
  directories :: "string list"
  predictor_calls :: "string list list"

text \<open>
  \<open>with open(pdb_path, "w") as f: f.write(pdb)\<close>. Opening a file for writing creates or
  truncates it, and raises FileNotFoundError when the directory of the path does not
  exist; that is the one failure of \<open>open\<close> modelled here (permissions and a full disk
  are not). The directory of a path is what stands before its last slash.
\<close>

definition dirname :: "string \<Rightarrow> string" where
  "dirname path = rev (tl (dropWhile (\<lambda>c. c \<noteq> CHR ''/'') (rev path)))"

definition write_file :: "string \<Rightarrow> string \<Rightarrow> world \<Rightarrow> error + world" where
  "write_file pdb_path pdb w =
     (if dirname pdb_path \<in> set (directories w)
      then Inr (w\<lparr>files := (files w)(pdb_path \<mapsto> pdb)\<rparr>)
      else Inl (FileNotFoundError pdb_path))"

text \<open>
  \<open>generate_pdbs\<close>: one call of the predictor with the sequences as given, then the loop
  over \<open>zip(sequences, pdbs)\<close> that writes one file per pair and stops at the first
  exception, leaving the files written so far. The predictor is the parameter
  \<open>infer_structure_batch\<close>; an exception of its leaves before any file is written.
\<close>

fun write_pdbs ::
  "string \<Rightarrow> (string \<Rightarrow> int) \<Rightarrow> (string \<times> string) list \<Rightarrow> world \<Rightarrow> error option \<times> world" where
  "write_pdbs cache_path hash [] w = (None, w)"
| "write_pdbs cache_path hash ((sequence, pdb) # rest) w =
     (let pdb_path = make_pdb_path cache_path hash sequence
      in case write_file pdb_path pdb w of
           Inl e \<Rightarrow> (Some e, w)
         | Inr w' \<Rightarrow> write_pdbs cache_path hash rest w')"

definition generate_pdbs ::
  "(string list \<Rightarrow> error + string list) \<Rightarrow> string \<Rightarrow> (string \<Rightarrow> int) \<Rightarrow>
   string list \<Rightarrow> world \<Rightarrow> (error + string list) \<times> world" where
  "generate_pdbs infer_structure_batch cache_path hash sequences w =
     (let w1 = w\<lparr>predictor_calls := predictor_calls w @ [sequences]\<rparr>
      in case infer_structure_batch sequences of
           Inl e \<Rightarrow> (Inl e, w1)
         | Inr pdbs \<Rightarrow>
             (case write_pdbs cache_path hash (zip sequences pdbs) w1 of
                (Some e, w2) \<Rightarrow> (Inl e, w2)
              | (None, w2) \<Rightarrow> (Inr pdbs, w2)))"

text \<open>
  \<open>load_pdbs\<close>: the loop appends each file's contents to \<open>pdbs\<close> or raises
  FileNotFoundError; the function has no return statement, so a call that does not
  raise returns Python's None (here \<open>None\<close>; a returned list would be \<open>Some pdbs\<close>).
\<close>

fun load_pdbs_loop ::
  "string \<Rightarrow> (string \<Rightarrow> int) \<Rightarrow> world \<Rightarrow> string list \<Rightarrow> string list \<Rightarrow> error + string list" where
  "load_pdbs_loop cache_path hash w [] pdbs = Inr pdbs"
| "load_pdbs_loop cache_path hash w (sequence # rest) pdbs =
     (let pdb_path = make_pdb_path cache_path hash sequence
      in case files w pdb_path of
           Some contents \<Rightarrow> load_pdbs_loop cache_path hash w rest (pdbs @ [contents])
         | None \<Rightarrow> Inl (FileNotFoundError sequence))"

definition load_pdbs ::
  "string \<Rightarrow> (string \<Rightarrow> int) \<Rightarrow> world \<Rightarrow> string list \<Rightarrow> error + string list option" where
  "load_pdbs cache_path hash w sequences =
     (case load_pdbs_loop cache_path hash w sequences [] of
        Inl e \<Rightarrow> Inl e
      | Inr pdbs \<Rightarrow> Inr None)"

subsection \<open>The distance matrix\<close>

text \<open>
  The loop that collects the C-alpha atoms in \<open>get_distance_matrix\<close>: residues with a
  blank hetero flag that contain an atom named CA.
\<close>

fun collect_ca_blank :: "residue list \<Rightarrow> atom list \<Rightarrow> error + atom list" where
  "collect_ca_blank [] ca_atoms = Inr ca_atoms"
| "collect_ca_blank (residue # rest) ca_atoms =
     (if fst (res_id residue) = '' '' \<and> contains residue ''CA''
      then (case getitem residue ''CA'' of
              Inl e \<Rightarrow> Inl e
            | Inr a \<Rightarrow> collect_ca_blank rest (ca_atoms @ [a]))
      else collect_ca_blank rest ca_atoms)"

definition zeros :: "nat \<Rightarrow> nat \<Rightarrow> npfloat list list" where
  "zeros r c = replicate r (replicate c (Fin 0))"

definition set_item :: "'a list list \<Rightarrow> nat \<Rightarrow> nat \<Rightarrow> 'a \<Rightarrow> 'a list list" where
  "set_item m i j v = m[i := (m ! i)[j := v]]"

text \<open>
  The body of the inner loop: \<open>distance_matrix[i][j] = distance_matrix[j][i] = ...\<close>
  evaluates the right-hand side once and stores it left to right.
\<close>

definition distance_step :: "atom list \<Rightarrow> nat \<Rightarrow> nat \<Rightarrow> npfloat list list \<Rightarrow> npfloat list list" where
  "distance_step ca_atoms i j distance_matrix =
     (let distance = vsub (coord (ca_atoms ! i)) (coord (ca_atoms ! j));
          d = fsqrt (vsum (vmul distance distance))
      in set_item (set_item distance_matrix i j d) j i d)"

definition distance_rows :: "atom list \<Rightarrow> npfloat list list" where
  "distance_rows ca_atoms =
     (let num_residues = length ca_atoms
      in fold (\<lambda>i. fold (distance_step ca_atoms i) [i + 1..<num_residues])
           [0..<num_residues] (zeros num_residues num_residues))"

definition get_distance_matrix ::
  "(string \<Rightarrow> error + pdb_structure) \<Rightarrow> string \<Rightarrow> error + npfloat list list" where
  "get_distance_matrix get_structure pdb =
     (case get_structure pdb of
        Inl e \<Rightarrow> Inl e
      | Inr struct \<Rightarrow>
          (case collect_ca_blank (structure_residues struct) [] of
             Inl e \<Rightarrow> Inl e
           | Inr ca_atoms \<Rightarrow> Inr (distance_rows ca_atoms)))"

text \<open>
  \<open>flatten_distance_matrix\<close>. \<open>np.triu_indices(n, k)\<close> lists the positions \<open>(i, j)\<close> with
  \<open>i + k \<le> j < n\<close> row by row; indexing with them raises IndexError on a position
  outside the array. The assertion compares the size with \<open>n ** 2 / 2 - n\<close>, which
  Python reads as \<open>(n ** 2 / 2) - n\<close> with a true division.
\<close>

definition triu_indices :: "nat \<Rightarrow> nat \<Rightarrow> (nat \<times> nat) list" where
  "triu_indices n k = concat (map (\<lambda>i. map (\<lambda>j. (i, j)) [i + k..<n]) [0..<n])"

fun take_items :: "'a list list \<Rightarrow> (nat \<times> nat) list \<Rightarrow> error + 'a list" where
  "take_items m [] = Inr []"
| "take_items m ((i, j) # rest) =
     (if i < length m \<and> j < length (m ! i)
      then (case take_items m rest of
              Inl e \<Rightarrow> Inl e
            | Inr vs \<Rightarrow> Inr (m ! i ! j # vs))
      else Inl IndexError)"

definition flatten_distance_matrix :: "npfloat list list \<Rightarrow> error + npfloat list" where
  "flatten_distance_matrix distance_matrix =
     (let n = length distance_matrix
      in case take_items distance_matrix (triu_indices n 1) of
           Inl e \<Rightarrow> Inl e
         | Inr result \<Rightarrow>
             if real (length result) = real (n ^ 2) / 2 - real n
             then Inr result
             else Inl AssertionError)"

text \<open>An array of shape \<open>(n, n)\<close> as a list of rows.\<close>

definition is_square :: "'a list list \<Rightarrow> bool" where
  "is_square m = list_all (\<lambda>row. length row = length m) m"

subsection \<open>The quaternions\<close>

text \<open>
  The loop that collects the C-alpha atoms in \<open>compute_quaternions\<close>: every residue
  that contains an atom named CA.
\<close>

fun collect_ca_any :: "residue list \<Rightarrow> atom list \<Rightarrow> error + atom list" where
  "collect_ca_any [] ca_atoms = Inr ca_atoms"
| "collect_ca_any (residue # rest) ca_atoms =
     (if contains residue ''CA''
      then (case getitem residue ''CA'' of
              Inl e \<Rightarrow> Inl e
            | Inr a \<Rightarrow> collect_ca_any rest (ca_atoms @ [a]))
      else collect_ca_any rest ca_atoms)"

text \<open>
  \<open>quaternion_from_vectors\<close>, in two steps: the array \<open>q\<close> as lines 184 to 186 fill it
  (the scalar part computed in the precision of the vectors and stored into the float64
  array with the cross product), and its division by \<open>np.linalg.norm(q)\<close>, which numpy
  computes as \<open>sqrt(dot(q, q))\<close>. Nothing in it raises.
\<close>

definition quaternion_parts :: "float_arith \<Rightarrow> vec3 \<Rightarrow> vec3 \<Rightarrow> vec4" where
  "quaternion_parts A v1 v2 =
     (let rnd = round_v A;
          v_cross = cross rnd v1 v2;
          v_dot = dot_v A v1 v2;
          q0 = rounded rnd (fadd
                 (rounded rnd (fsqrt (rounded rnd
                    (fmul (sum_of_squares rnd v1) (sum_of_squares rnd v2)))))
                 v_dot)
      in (q0, fst v_cross, fst (snd v_cross), snd (snd v_cross)))"

definition quaternion_from_vectors :: "float_arith \<Rightarrow> vec3 \<Rightarrow> vec3 \<Rightarrow> vec4" where
  "quaternion_from_vectors A v1 v2 =
     (let q = quaternion_parts A v1 v2;
          norm = rounded (round_q A) (fsqrt (dot_q A q q))
      in qdiv (round_q A) q norm)"

text \<open>
  The two loops of \<open>compute_quaternions\<close>: the normalised vectors between consecutive
  C-alpha atoms (\<open>range(len(ca_atoms) - 1)\<close> is empty for no atom, as the truncated
  subtraction is), and the quaternion of each consecutive pair of them.
\<close>

definition tangent_vectors :: "atom list \<Rightarrow> vec3 list" where
  "tangent_vectors ca_atoms =
     map (\<lambda>i. let vec = vsub (coord (ca_atoms ! (i + 1))) (coord (ca_atoms ! i))
              in vdiv vec (norm3 vec))
       [0..<length ca_atoms - 1]"

definition consecutive_quaternions :: "float_arith \<Rightarrow> vec3 list \<Rightarrow> vec4 list" where
  "consecutive_quaternions A vectors =
     map (\<lambda>i. quaternion_from_vectors A (vectors ! i) (vectors ! (i + 1)))
       [0..<length vectors - 1]"

definition compute_quaternions ::
  "float_arith \<Rightarrow> (string \<Rightarrow> error + pdb_structure) \<Rightarrow> string \<Rightarrow> error + vec4 list" where
  "compute_quaternions A get_structure pdb =
     (case get_structure pdb of
        Inl e \<Rightarrow> Inl e
      | Inr struct \<Rightarrow>
          (case collect_ca_any (structure_residues struct) [] of
             Inl e \<Rightarrow> Inl e
           | Inr ca_atoms \<Rightarrow> Inr (consecutive_quaternions A (tangent_vectors ca_atoms))))"


section \<open>Notions of the claims\<close>

text \<open>
  The atom \<open>residue["CA"]\<close> of a residue that has one, and the residues the distance
  matrix is built from: blank hetero flag and an atom named CA.
\<close>

definition ca_of :: "residue \<Rightarrow> atom" where
  "ca_of residue = the (map_of (child_dict residue) ''CA'')"

definition qualifying :: "residue \<Rightarrow> bool" where
  "qualifying residue = (fst (res_id residue) = '' '' \<and> contains residue ''CA'')"

text \<open>The invariant of the two loops that fill the distance matrix.\<close>

definition symmetric_zero_diagonal :: "nat \<Rightarrow> npfloat list list \<Rightarrow> bool" where
  "symmetric_zero_diagonal n m =
     (length m = n \<and> (\<forall>r<n. length (m ! r) = n) \<and>
      (\<forall>a<n. \<forall>b<n. m ! a ! b = m ! b ! a) \<and> (\<forall>a<n. m ! a ! a = Fin 0))"

section \<open>Example inputs\<close>

text \<open>
  A parser that returns a given structure, residues with a single atom named CA, and
  four chains: two C-alpha atoms at the same place, a single residue, a residue followed
  by a calcium ion (a hetero residue whose atom is named CA), and a right-angled corner.
\<close>

definition parsed_as :: "pdb_structure \<Rightarrow> string \<Rightarrow> error + pdb_structure" where
  "parsed_as s pdb = Inr s"

definition ca_atom :: "vec3 \<Rightarrow> atom" where
  "ca_atom c = \<lparr>atom_name = ''CA'', coord = c\<rparr>"

definition ca_residue :: "string \<Rightarrow> int \<Rightarrow> vec3 \<Rightarrow> residue" where
  "ca_residue hetero n c =
     \<lparr>res_id = (hetero, n, '' ''), resname = ''ALA'', child_dict = [(''CA'', ca_atom c)]\<rparr>"

definition single_chain :: "residue list \<Rightarrow> pdb_structure" where
  "single_chain residues = [[\<lparr>chain_id = ''A'', chain_residues = residues\<rparr>]]"

definition coincident_chain :: pdb_structure where
  "coincident_chain = single_chain
     [ca_residue '' '' 1 (Fin 0, Fin 0, Fin 0),
      ca_residue '' '' 2 (Fin 0, Fin 0, Fin 0),
      ca_residue '' '' 3 (Fin 1, Fin 0, Fin 0)]"

definition one_residue_chain :: pdb_structure where
  "one_residue_chain = single_chain [ca_residue '' '' 1 (Fin 1, Fin 2, Fin 3)]"

definition calcium_chain :: pdb_structure where
  "calcium_chain = single_chain
     [ca_residue '' '' 1 (Fin 0, Fin 0, Fin 0),
      ca_residue '' '' 2 (Fin 1, Fin 0, Fin 0),
      ca_residue ''H_ CA'' 3 (Fin 1, Fin 1, Fin 0)]"


text \<open>
  A hash (the sum of the character codes), a predictor, and a state in which the cache
  directory exists and holds files for the sequences A and C.
\<close>

definition example_hash :: "string \<Rightarrow> int" where
  "example_hash s = int (sum_list (map of_char s))"

definition example_predictor :: "string list \<Rightarrow> error + string list" where
  "example_predictor sequences = Inr (map (\<lambda>s. ''PDB of '' @ s) sequences)"

definition example_world :: world where
  "example_world =
     \<lparr>files = [''pdb/P65.pdb'' \<mapsto> ''cached PDB of A'', ''pdb/P67.pdb'' \<mapsto> ''cached PDB of C''],
      directories = [''pdb''],
      predictor_calls = []\<rparr>"

section \<open>Flattening the distance matrix\<close>

lemma twice_sum_below: "2 * (\<Sum>i<n. i) = n * (n - 1)" for n :: nat
  by (induction n) (auto simp: algebra_simps)

lemma length_triu_indices: "2 * length (triu_indices n 1) = n * (n - 1)"
proof -
  have "length (triu_indices n 1) = (\<Sum>i<n. n - Suc i)"
    by (simp add: triu_indices_def length_concat comp_def interv_sum_list_conv_sum_set_nat
        atLeast0LessThan)
  also have "\<dots> = (\<Sum>i<n. i)"
    by (rule sum.nat_diff_reindex)
  finally show ?thesis
    by (simp add: twice_sum_below)
qed

lemma triu_indices_in_range:
  "(i, j) \<in> set (triu_indices n k) \<Longrightarrow> i < n \<and> j < n"
  by (auto simp: triu_indices_def)

lemma take_items_in_range:
  "list_all (\<lambda>(i, j). i < length m \<and> j < length (m ! i)) ijs \<Longrightarrow>
   take_items m ijs = Inr (map (\<lambda>(i, j). m ! i ! j) ijs)"
  by (induction ijs) auto

lemma take_items_square:
  assumes "is_square m"
  shows "take_items m (triu_indices (length m) 1) =
         Inr (map (\<lambda>(i, j). m ! i ! j) (triu_indices (length m) 1))"
proof (rule take_items_in_range)
  show "list_all (\<lambda>(i, j). i < length m \<and> j < length (m ! i)) (triu_indices (length m) 1)"
    unfolding list_all_iff
  proof safe
    fix i j assume "(i, j) \<in> set (triu_indices (length m) 1)"
    then have ij: "i < length m" "j < length m"
      using triu_indices_in_range by blast+
    with assms have "length (m ! i) = length m"
      by (simp add: is_square_def list_all_length)
    with ij show "i < length m" "j < length (m ! i)" by simp_all
  qed
qed

lemma assertion_fails:
  fixes n l :: nat
  assumes "2 * l = n * (n - 1)" "0 < n"
  shows "real l \<noteq> real (n ^ 2) / 2 - real n"
proof
  assume eq: "real l = real (n ^ 2) / 2 - real n"
  have "real (2 * l) = real (n * (n - 1))" using assms(1) by simp
  also have "\<dots> = real n * (real n - 1)" using assms(2) by (simp add: of_nat_diff)
  finally have "2 * real l = real n * real n - real n" by (simp add: algebra_simps)
  with eq have "real n = 0" by (simp add: power2_eq_square field_simps)
  with assms(2) show False by simp
qed

text \<open>The \<open>0 \<times> 0\<close> array is flattened to the empty array.\<close>

lemma flatten_distance_matrix_empty: "flatten_distance_matrix [] = Inr []"
  by (simp add: flatten_distance_matrix_def triu_indices_def)

text \<open>
  Reading the strict upper triangle of an \<open>n \<times> n\<close> array raises nothing and gives
  \<open>n * (n - 1) / 2\<close> entries.
\<close>

lemma strict_upper_triangle_size:
  "is_square m \<Longrightarrow>
   \<exists>result. take_items m (triu_indices (length m) 1) = Inr result \<and>
     length result = length m * (length m - 1) div 2"
proof -
  assume "is_square m"
  then have "take_items m (triu_indices (length m) 1) =
      Inr (map (\<lambda>(i, j). m ! i ! j) (triu_indices (length m) 1))"
    by (rule take_items_square)
  moreover have "length (map (\<lambda>(i, j). m ! i ! j) (triu_indices (length m) 1)) =
      length m * (length m - 1) div 2"
    using length_triu_indices [of "length m"] by simp
  ultimately show ?thesis by blast
qed

theorem strict_upper_triangle_size_witness:
  "is_square [[Fin 0, Fin 1], [Fin 1, Fin 0]] \<and>
   take_items [[Fin 0, Fin 1], [Fin 1, Fin 0]] (triu_indices 2 1) = Inr [Fin 1] \<and>
   length [Fin (1::real)] = 2 * (2 - 1) div (2::nat)"
proof -
  have sq: "is_square [[Fin 0, Fin 1], [Fin 1, Fin 0]]" by (simp add: is_square_def)
  from strict_upper_triangle_size [OF sq]
  obtain result where "take_items [[Fin 0, Fin 1], [Fin 1, Fin 0]]
      (triu_indices (length [[Fin 0, Fin 1], [Fin 1, Fin 0]]) 1) = Inr result"
    and "length result = length [[Fin 0, Fin 1], [Fin 1, Fin 0]]
      * (length [[Fin 0, Fin 1], [Fin 1, Fin 0]] - 1) div 2"
    by blast
  moreover have "take_items [[Fin 0, Fin 1], [Fin 1, Fin 0]]
      (triu_indices (length [[Fin 0, Fin 1], [Fin 1, Fin 0]]) 1) = Inr [Fin 1]"
    by (simp add: triu_indices_def upt_rec numeral_eq_Suc)
  ultimately have "result = [Fin 1]" by simp
  with \<open>take_items _ _ = Inr result\<close> sq show ?thesis by (simp add: numeral_2_eq_2)
qed

text \<open>
  C1. The claim fails on the code. The strict upper triangle of an \<open>n \<times> n\<close> array is
  read without error and has \<open>n * (n - 1) / 2\<close> entries, but the assertion compares
  that size with \<open>n ** 2 / 2 - n\<close>: for every square array with at least one row
  \<open>flatten_distance_matrix\<close> raises AssertionError. Only the \<open>0 \<times> 0\<close> array is
  flattened.
\<close>

theorem flatten_distance_matrix_assertion_fails:
  assumes "is_square m" "m \<noteq> []"
  shows "flatten_distance_matrix m = Inl AssertionError"
proof -
  let ?ijs = "triu_indices (length m) 1"
  let ?result = "map (\<lambda>(i, j). m ! i ! j) ?ijs"
  have taken: "take_items m ?ijs = Inr ?result"
    using assms(1) by (rule take_items_square)
  have "2 * length ?result = length m * (length m - 1)"
    using length_triu_indices [of "length m"] by simp
  moreover have "0 < length m" using assms(2) by simp
  ultimately have "real (length ?result) \<noteq> real (length m ^ 2) / 2 - real (length m)"
    by (rule assertion_fails)
  with taken show ?thesis
    unfolding flatten_distance_matrix_def Let_def by simp
qed

theorem flatten_distance_matrix_assertion_fails_witness:
  "is_square [[Fin 0, Fin 1], [Fin 1, Fin 0]] \<and> [[Fin 0, Fin 1], [Fin 1, Fin 0]] \<noteq> [] \<and>
   flatten_distance_matrix [[Fin 0, Fin 1], [Fin 1, Fin 0]] = Inl AssertionError \<and>
   is_square [[Fin 0]] \<and> flatten_distance_matrix [[Fin 0]] = Inl AssertionError"
  using flatten_distance_matrix_assertion_fails [of "[[Fin 0, Fin 1], [Fin 1, Fin 0]]"]
    flatten_distance_matrix_assertion_fails [of "[[Fin 0]]"]
  by (simp add: is_square_def)

section \<open>The path of a cached file\<close>

lemma digit_char_inj: "a < 10 \<Longrightarrow> b < 10 \<Longrightarrow> digit_char a = digit_char b \<Longrightarrow> a = b"
proof -
  assume "a < 10" "b < 10"
  then have "a \<in> {0,1,2,3,4,5,6,7,8,9}" "b \<in> {0,1,2,3,4,5,6,7,8,9}" by auto
  moreover assume "digit_char a = digit_char b"
  ultimately show ?thesis
    by (auto simp: digit_char_def)
qed

lemma digit_char_not_minus: "a < 10 \<Longrightarrow> digit_char a \<noteq> CHR ''-''"
proof -
  assume "a < 10"
  then have "a \<in> {0,1,2,3,4,5,6,7,8,9}" by auto
  then show ?thesis by (auto simp: digit_char_def)
qed

lemma str_nat_nonempty: "str_nat n \<noteq> []"
  by (subst str_nat.simps) simp

lemma hd_str_nat_not_minus: "hd (str_nat n) \<noteq> CHR ''-''"
proof (induction n rule: str_nat.induct)
  case (1 n)
  show ?case
  proof (cases "n < 10")
    case True
    then show ?thesis by (subst str_nat.simps) (simp add: digit_char_not_minus)
  next
    case False
    with 1 show ?thesis by (subst str_nat.simps) (simp add: str_nat_nonempty)
  qed
qed

lemma str_nat_small: "n < 10 \<Longrightarrow> str_nat n = [digit_char n]"
  by (subst str_nat.simps) simp

lemma str_nat_large: "\<not> n < 10 \<Longrightarrow> str_nat n = str_nat (n div 10) @ [digit_char (n mod 10)]"
  by (subst str_nat.simps) simp

lemma str_nat_inj: "str_nat m = str_nat n \<Longrightarrow> m = n"
proof (induction m arbitrary: n rule: str_nat.induct)
  case (1 m)
  note eq = \<open>str_nat m = str_nat n\<close>
  show ?case
  proof (cases "m < 10")
    case m: True
    show ?thesis
    proof (cases "n < 10")
      case True
      with m eq show ?thesis
        by (simp add: str_nat_small digit_char_inj)
    next
      case False
      with m eq have "[digit_char m] = str_nat (n div 10) @ [digit_char (n mod 10)]"
        by (simp add: str_nat_small str_nat_large)
      then have "str_nat (n div 10) = []" by simp
      then show ?thesis by (simp add: str_nat_nonempty)
    qed
  next
    case m: False
    show ?thesis
    proof (cases "n < 10")
      case True
      with m eq have "str_nat (m div 10) @ [digit_char (m mod 10)] = [digit_char n]"
        by (simp add: str_nat_small str_nat_large)
      then have "str_nat (m div 10) = []" by simp
      then show ?thesis by (simp add: str_nat_nonempty)
    next
      case False
      with m eq have "str_nat (m div 10) @ [digit_char (m mod 10)] =
          str_nat (n div 10) @ [digit_char (n mod 10)]"
        by (simp add: str_nat_large)
      then have "str_nat (m div 10) = str_nat (n div 10)"
        and "digit_char (m mod 10) = digit_char (n mod 10)"
        by simp_all
      then have "m div 10 = n div 10" "m mod 10 = n mod 10"
        using "1.IH" m by (auto intro: digit_char_inj)
      then show ?thesis
        by (metis div_mult_mod_eq)
    qed
  qed
qed

lemma str_int_inj: "str_int a = str_int b \<Longrightarrow> a = b"
proof -
  assume eq: "str_int a = str_int b"
  have neg: "str_nat x \<noteq> CHR ''-'' # ys" for x ys
    using hd_str_nat_not_minus [of x] by (metis list.sel(1))
  show ?thesis
  proof (cases "a < 0"; cases "b < 0")
    assume "a < 0" "b < 0"
    with eq have "nat (- a) = nat (- b)" by (simp add: str_int_def str_nat_inj)
    with \<open>a < 0\<close> \<open>b < 0\<close> show ?thesis by simp
  next
    assume "a < 0" "\<not> b < 0"
    with eq neg show ?thesis by (simp add: str_int_def) metis
  next
    assume "\<not> a < 0" "b < 0"
    with eq neg show ?thesis by (simp add: str_int_def)
  next
    assume "\<not> a < 0" "\<not> b < 0"
    with eq have "nat a = nat b" by (simp add: str_int_def str_nat_inj)
    with \<open>\<not> a < 0\<close> \<open>\<not> b < 0\<close> show ?thesis by simp
  qed
qed

lemma make_pdb_path_eq_iff:
  "make_pdb_path c h1 s1 = make_pdb_path c h2 s2 \<longleftrightarrow> h1 s1 = h2 s2"
  by (auto simp: make_pdb_path_def dest: str_int_inj)

text \<open>
  Within one process the path is a function of the hash value alone, and two sequences
  share a path exactly when their hash values collide.
\<close>

theorem make_pdb_path_within_process:
  "make_pdb_path c h s1 = make_pdb_path c h s2 \<longleftrightarrow> h s1 = h s2"
  by (rule make_pdb_path_eq_iff)

text \<open>
  C2. The claim fails on the code. The path is the hash value in decimal between fixed
  strings, and \<open>str\<close> is injective: two processes whose builtin \<open>hash\<close> gives the
  sequence different values compute different paths for it. Nothing in
  \<open>make_pdb_path\<close> removes the per-process key of \<open>hash\<close>.
\<close>

theorem make_pdb_path_differs_with_hash:
  "h1 s \<noteq> h2 s \<Longrightarrow> make_pdb_path c h1 s \<noteq> make_pdb_path c h2 s"
  by (simp add: make_pdb_path_eq_iff)

theorem make_pdb_path_differs_with_hash_witness:
  "(3010739813545375555 :: int) \<noteq> 5140995546803149278 \<and>
   make_pdb_path ''pdb'' (\<lambda>s. 3010739813545375555) ''A'' \<noteq>
   make_pdb_path ''pdb'' (\<lambda>s. 5140995546803149278) ''A''"
  using make_pdb_path_differs_with_hash
    [of "\<lambda>s. 3010739813545375555" "''A''" "\<lambda>s. 5140995546803149278" "''pdb''"]
  by simp

section \<open>Writing and loading the cache\<close>

lemma str_nat_digits: "set (str_nat n) \<subseteq> set ''0123456789''"
proof (induction n rule: str_nat.induct)
  case (1 n)
  have digit: "digit_char d \<in> set ''0123456789''" if "d < 10" for d
  proof -
    from that have "d \<in> {0, 1, 2, 3, 4, 5, 6, 7, 8, 9}" by auto
    then show ?thesis by (auto simp: digit_char_def)
  qed
  show ?case
  proof (cases "n < 10")
    case True
    then show ?thesis using digit [of n] by (simp add: str_nat_small)
  next
    case False
    moreover have "n mod 10 < 10" by simp
    ultimately show ?thesis
      using "1.IH" digit [of "n mod 10"] by (simp add: str_nat_large)
  qed
qed

lemma no_slash_in_str_int: "CHR ''/'' \<notin> set (str_int i)"
  using str_nat_digits by (auto simp: str_int_def)

lemma dirname_join:
  assumes "CHR ''/'' \<notin> set name"
  shows "dirname (c @ ''/'' @ name) = c"
proof -
  have "rev (c @ ''/'' @ name) = rev name @ CHR ''/'' # rev c" by simp
  moreover have "dropWhile (\<lambda>x. x \<noteq> CHR ''/'') (rev name @ CHR ''/'' # rev c)
      = dropWhile (\<lambda>x. x \<noteq> CHR ''/'') (CHR ''/'' # rev c)"
    using assms by (intro dropWhile_append2) auto
  ultimately show ?thesis by (simp add: dirname_def)
qed

lemma dirname_make_pdb_path: "dirname (make_pdb_path c h s) = c"
proof -
  have "CHR ''/'' \<notin> set (''P'' @ str_int (h s) @ ''.pdb'')"
    using no_slash_in_str_int [of "h s"] by simp
  then have "dirname (c @ ''/'' @ (''P'' @ str_int (h s) @ ''.pdb'')) = c"
    by (rule dirname_join)
  then show ?thesis by (simp add: make_pdb_path_def)
qed

lemma write_file_present:
  "c \<in> set (directories w) \<Longrightarrow>
   write_file (make_pdb_path c h s) pdb w = Inr (w\<lparr>files := (files w)(make_pdb_path c h s \<mapsto> pdb)\<rparr>)"
  by (simp add: write_file_def dirname_make_pdb_path)

lemma write_file_missing:
  "c \<notin> set (directories w) \<Longrightarrow>
   write_file (make_pdb_path c h s) pdb w = Inl (FileNotFoundError (make_pdb_path c h s))"
  by (simp add: write_file_def dirname_make_pdb_path)

lemma write_pdbs_calls: "predictor_calls (snd (write_pdbs c h kvs w)) = predictor_calls w"
proof (induction kvs arbitrary: w)
  case Nil
  then show ?case by simp
next
  case (Cons kv kvs)
  obtain s pdb where kv: "kv = (s, pdb)" by (cases kv)
  show ?case
  proof (cases "c \<in> set (directories w)")
    case True
    then show ?thesis
      using Cons.IH [of "w\<lparr>files := (files w)(make_pdb_path c h s \<mapsto> pdb)\<rparr>"]
      by (simp add: kv write_file_present)
  next
    case False
    then show ?thesis by (simp add: kv write_file_missing)
  qed
qed

lemma write_pdbs_present:
  "c \<in> set (directories w) \<Longrightarrow>
   write_pdbs c h kvs w =
     (None, w\<lparr>files := files w ++ map_of (rev (map (\<lambda>(s, pdb). (make_pdb_path c h s, pdb)) kvs))\<rparr>)"
proof (induction kvs arbitrary: w)
  case Nil
  then show ?case by simp
next
  case (Cons kv kvs)
  obtain s pdb where kv: "kv = (s, pdb)" by (cases kv)
  let ?w = "w\<lparr>files := (files w)(make_pdb_path c h s \<mapsto> pdb)\<rparr>"
  let ?rest = "map_of (rev (map (\<lambda>(s, pdb). (make_pdb_path c h s, pdb)) kvs))"
  have "write_pdbs c h (kv # kvs) w = write_pdbs c h kvs ?w"
    using Cons.prems by (simp add: kv write_file_present)
  also have "\<dots> = (None, ?w\<lparr>files := files ?w ++ ?rest\<rparr>)"
    using Cons.prems by (intro Cons.IH) simp
  also have "?w\<lparr>files := files ?w ++ ?rest\<rparr> =
      w\<lparr>files := (files w)(make_pdb_path c h s \<mapsto> pdb) ++ ?rest\<rparr>"
    by simp
  also have "(files w)(make_pdb_path c h s \<mapsto> pdb) ++ ?rest =
      files w ++ map_of (rev (map (\<lambda>(s, pdb). (make_pdb_path c h s, pdb)) (kv # kvs)))"
    by (simp add: kv map_add_upd_left)
  finally show ?case .
qed

lemma write_pdbs_missing:
  "c \<notin> set (directories w) \<Longrightarrow>
   write_pdbs c h ((s, pdb) # kvs) w = (Some (FileNotFoundError (make_pdb_path c h s)), w)"
  by (simp add: write_file_missing)

lemma write_pdbs_completed:
  assumes "write_pdbs c h kvs w = (None, w')"
  shows "w' = w\<lparr>files := files w ++ map_of (rev (map (\<lambda>(s, pdb). (make_pdb_path c h s, pdb)) kvs))\<rparr>"
proof (cases "c \<in> set (directories w)")
  case True
  with assms show ?thesis by (simp add: write_pdbs_present)
next
  case False
  show ?thesis
  proof (cases kvs)
    case Nil
    with assms show ?thesis by simp
  next
    case (Cons kv rest)
    obtain s pdb where "kv = (s, pdb)" by (cases kv)
    with Cons False assms show ?thesis by (simp add: write_file_missing)
  qed
qed

lemma zipped_paths:
  "map (\<lambda>(s, pdb). (f s, pdb)) (zip sequences pdbs) = zip (map f sequences) pdbs"
  by (simp add: zip_map1)

lemma stored_distinct:
  assumes "distinct (map f sequences)" "length pdbs = length sequences" "i < length sequences"
  shows "(m ++ map_of (rev (zip (map f sequences) pdbs))) (f (sequences ! i)) = Some (pdbs ! i)"
proof -
  let ?kvs = "zip (map f sequences) pdbs"
  have "map fst ?kvs = map f sequences"
    using assms(2) by simp
  then have "distinct (map fst (rev ?kvs))"
    using assms(1) by (simp add: rev_map [symmetric])
  moreover have "(f (sequences ! i), pdbs ! i) \<in> set (rev ?kvs)"
    using assms(2,3) by (auto simp: set_zip intro!: exI [of _ i])
  ultimately have "map_of (rev ?kvs) (f (sequences ! i)) = Some (pdbs ! i)"
    by (rule map_of_is_SomeI)
  then show ?thesis
    by (simp add: map_add_Some_iff)
qed

lemma generate_pdbs_completed:
  assumes "fst (generate_pdbs infer c h sequences w) = Inr pdbs"
  shows "infer sequences = Inr pdbs \<and>
         files (snd (generate_pdbs infer c h sequences w)) =
           files w ++ map_of (rev (zip (map (make_pdb_path c h) sequences) pdbs))"
proof -
  let ?w1 = "w\<lparr>predictor_calls := predictor_calls w @ [sequences]\<rparr>"
  from assms obtain pdbs' where infer: "infer sequences = Inr pdbs'"
    by (cases "infer sequences") (simp_all add: generate_pdbs_def)
  obtain r w2 where loop: "write_pdbs c h (zip sequences pdbs') ?w1 = (r, w2)"
    by (cases "write_pdbs c h (zip sequences pdbs') ?w1")
  from assms infer loop have r: "r = None" and same: "pdbs' = pdbs"
    by (cases r; simp add: generate_pdbs_def)+
  from loop r have "w2 = ?w1\<lparr>files := files ?w1 ++
      map_of (rev (map (\<lambda>(s, pdb). (make_pdb_path c h s, pdb)) (zip sequences pdbs')))\<rparr>"
    by (intro write_pdbs_completed) simp
  with infer loop r same show ?thesis
    by (simp add: generate_pdbs_def zipped_paths)
qed

lemma load_pdbs_loop_present:
  "list_all (\<lambda>s. files w (make_pdb_path c h s) \<noteq> None) sequences \<Longrightarrow>
   load_pdbs_loop c h w sequences pdbs =
     Inr (pdbs @ map (\<lambda>s. the (files w (make_pdb_path c h s))) sequences)"
  by (induction sequences arbitrary: pdbs) (auto simp: Let_def)

lemma example_paths:
  "make_pdb_path ''pdb'' example_hash ''A'' = ''pdb/P65.pdb''"
  "make_pdb_path ''pdb'' example_hash ''B'' = ''pdb/P66.pdb''"
  "make_pdb_path ''pdb'' example_hash ''C'' = ''pdb/P67.pdb''"
  by (simp_all add: make_pdb_path_def example_hash_def str_int_def str_nat.simps digit_char_def)

lemma example_directory: "''pdb'' \<in> set (directories example_world)"
  by (simp add: example_world_def)

text \<open>\<open>load_pdbs\<close> never returns a list, whatever the cache holds.\<close>

lemma load_pdbs_never_returns_list: "load_pdbs c h w sequences \<noteq> Inr (Some pdbs)"
  by (simp add: load_pdbs_def split: sum.splits)

text \<open>
  C3. The claim fails on the code. After \<open>generate_pdbs\<close> has completed and stored one
  PDB per sequence (the paths pairwise distinct), the loop of \<open>load_pdbs\<close> reads back
  exactly the predicted PDB texts, but the function does not return them: its result is
  None.
\<close>

theorem load_pdbs_returns_none_after_generate:
  assumes "fst (generate_pdbs infer c h sequences w) = Inr pdbs" "length pdbs = length sequences"
    "distinct (map (make_pdb_path c h) sequences)"
  shows "load_pdbs_loop c h (snd (generate_pdbs infer c h sequences w)) sequences [] = Inr pdbs \<and>
         load_pdbs c h (snd (generate_pdbs infer c h sequences w)) sequences = Inr None"
proof -
  let ?w = "snd (generate_pdbs infer c h sequences w)"
  have stored: "files ?w (make_pdb_path c h (sequences ! i)) = Some (pdbs ! i)"
    if "i < length sequences" for i
    using generate_pdbs_completed [OF assms(1)] stored_distinct [OF assms(3,2) that]
    by simp
  then have "list_all (\<lambda>s. files ?w (make_pdb_path c h s) \<noteq> None) sequences"
    by (auto simp: list_all_length)
  then have "load_pdbs_loop c h ?w sequences [] =
      Inr (map (\<lambda>s. the (files ?w (make_pdb_path c h s))) sequences)"
    using load_pdbs_loop_present [of ?w c h sequences "[]"] by simp
  moreover have "map (\<lambda>s. the (files ?w (make_pdb_path c h s))) sequences = pdbs"
    using stored assms(2) by (auto simp: list_eq_iff_nth_eq)
  ultimately have loop: "load_pdbs_loop c h ?w sequences [] = Inr pdbs" by simp
  then show ?thesis by (simp add: load_pdbs_def)
qed

theorem load_pdbs_returns_none_after_generate_witness:
  "fst (generate_pdbs example_predictor ''pdb'' example_hash [''B''] example_world)
     = Inr [''PDB of B''] \<and>
   load_pdbs_loop ''pdb'' example_hash
     (snd (generate_pdbs example_predictor ''pdb'' example_hash [''B''] example_world)) [''B''] []
   = Inr [''PDB of B''] \<and>
   load_pdbs ''pdb'' example_hash
     (snd (generate_pdbs example_predictor ''pdb'' example_hash [''B''] example_world)) [''B'']
   = Inr None"
proof -
  have g: "fst (generate_pdbs example_predictor ''pdb'' example_hash [''B''] example_world)
      = Inr [''PDB of B'']"
    by (simp add: generate_pdbs_def example_predictor_def write_file_present example_directory)
  have l: "length [''PDB of B''] = length [''B'']" by simp
  have d: "distinct (map (make_pdb_path ''pdb'' example_hash) [''B''])" by simp
  from load_pdbs_returns_none_after_generate [OF g l d] g
  show ?thesis by simp
qed

text \<open>
  C6, as the claim states it, fails: with the files of A and C in the cache and B
  missing, \<open>generate_pdbs\<close> calls the predictor with all three sequences, not with B
  alone, and the cached file of A is written again.
\<close>

theorem generate_pdbs_predicts_cached_too:
  "files example_world (make_pdb_path ''pdb'' example_hash ''A'') = Some ''cached PDB of A'' \<and>
   files example_world (make_pdb_path ''pdb'' example_hash ''C'') = Some ''cached PDB of C'' \<and>
   files example_world (make_pdb_path ''pdb'' example_hash ''B'') = None \<and>
   predictor_calls (snd (generate_pdbs example_predictor ''pdb'' example_hash
     [''A'', ''B'', ''C''] example_world)) = [[''A'', ''B'', ''C'']] \<and>
   predictor_calls (snd (generate_pdbs example_predictor ''pdb'' example_hash
     [''A'', ''B'', ''C''] example_world)) \<noteq> [[''B'']] \<and>
   files (snd (generate_pdbs example_predictor ''pdb'' example_hash
     [''A'', ''B'', ''C''] example_world)) (make_pdb_path ''pdb'' example_hash ''A'')
     = Some ''PDB of A''"
  by (simp add: generate_pdbs_def example_predictor_def example_paths example_world_def
      write_file_def dirname_def)

text \<open>
  C6, amended. For every batch, \<open>generate_pdbs\<close> consults no cache: it calls the
  predictor exactly once, with the whole batch as given (cached and repeated sequences
  included), whatever happens afterwards. If the predictor raises, the exception
  propagates and no file is written. If it returns \<open>pdbs\<close> and the cache directory
  exists, the pairs of \<open>zip(sequences, pdbs)\<close> are written in order, each under the path of
  its sequence, so that afterwards the files are the earlier ones overridden by these
  pairs (a later pair winning for a path that occurs twice), and \<open>pdbs\<close> is returned as
  the predictor gave it. If the cache directory is missing, the first write raises
  FileNotFoundError and no file is written.
\<close>

theorem generate_pdbs_predicts_whole_batch:
  "predictor_calls (snd (generate_pdbs infer c h sequences w)) = predictor_calls w @ [sequences] \<and>
   (\<forall>e. infer sequences = Inl e \<longrightarrow>
      generate_pdbs infer c h sequences w
        = (Inl e, w\<lparr>predictor_calls := predictor_calls w @ [sequences]\<rparr>)) \<and>
   (\<forall>pdbs. infer sequences = Inr pdbs \<and> c \<in> set (directories w) \<longrightarrow>
      fst (generate_pdbs infer c h sequences w) = Inr pdbs \<and>
      files (snd (generate_pdbs infer c h sequences w)) =
        files w ++ map_of (rev (zip (map (make_pdb_path c h) sequences) pdbs))) \<and>
   (\<forall>s rest pdb pdbs. infer sequences = Inr (pdb # pdbs) \<and> sequences = s # rest \<and>
        c \<notin> set (directories w) \<longrightarrow>
      generate_pdbs infer c h sequences w
        = (Inl (FileNotFoundError (make_pdb_path c h s)),
           w\<lparr>predictor_calls := predictor_calls w @ [sequences]\<rparr>))"
proof (intro conjI allI impI)
  show "predictor_calls (snd (generate_pdbs infer c h sequences w)) = predictor_calls w @ [sequences]"
  proof (cases "infer sequences")
    case (Inl e)
    then show ?thesis by (simp add: generate_pdbs_def)
  next
    case (Inr pdbs)
    let ?w1 = "w\<lparr>predictor_calls := predictor_calls w @ [sequences]\<rparr>"
    obtain r w2 where loop: "write_pdbs c h (zip sequences pdbs) ?w1 = (r, w2)"
      by (cases "write_pdbs c h (zip sequences pdbs) ?w1")
    then have "predictor_calls w2 = predictor_calls ?w1"
      using write_pdbs_calls [of c h "zip sequences pdbs" ?w1] by simp
    with Inr loop show ?thesis
      by (cases r) (simp_all add: generate_pdbs_def)
  qed
next
  fix e assume "infer sequences = Inl e"
  then show "generate_pdbs infer c h sequences w
      = (Inl e, w\<lparr>predictor_calls := predictor_calls w @ [sequences]\<rparr>)"
    by (simp add: generate_pdbs_def)
next
  fix pdbs assume a: "infer sequences = Inr pdbs \<and> c \<in> set (directories w)"
  let ?w1 = "w\<lparr>predictor_calls := predictor_calls w @ [sequences]\<rparr>"
  from a have "c \<in> set (directories ?w1)" by simp
  then have loop: "write_pdbs c h (zip sequences pdbs) ?w1 =
      (None, ?w1\<lparr>files := files ?w1 ++
        map_of (rev (map (\<lambda>(s, pdb). (make_pdb_path c h s, pdb)) (zip sequences pdbs)))\<rparr>)"
    by (rule write_pdbs_present)
  from a loop show "fst (generate_pdbs infer c h sequences w) = Inr pdbs"
    by (simp add: generate_pdbs_def)
  from a loop show "files (snd (generate_pdbs infer c h sequences w)) =
      files w ++ map_of (rev (zip (map (make_pdb_path c h) sequences) pdbs))"
    by (simp add: generate_pdbs_def zipped_paths)
next
  fix s rest pdb pdbs
  assume a: "infer sequences = Inr (pdb # pdbs) \<and> sequences = s # rest \<and>
      c \<notin> set (directories w)"
  let ?w1 = "w\<lparr>predictor_calls := predictor_calls w @ [sequences]\<rparr>"
  from a have "c \<notin> set (directories ?w1)" by simp
  then have "write_file (make_pdb_path c h s) pdb ?w1
      = Inl (FileNotFoundError (make_pdb_path c h s))"
    by (rule write_file_missing)
  moreover from a have "sequences = s # rest" "infer (s # rest) = Inr (pdb # pdbs)"
    by auto
  ultimately show "generate_pdbs infer c h sequences w
      = (Inl (FileNotFoundError (make_pdb_path c h s)),
         w\<lparr>predictor_calls := predictor_calls w @ [sequences]\<rparr>)"
    by (simp add: generate_pdbs_def)
qed

theorem generate_pdbs_predicts_whole_batch_witness:
  "example_predictor [''A'', ''B'', ''A''] = Inr [''PDB of A'', ''PDB of B'', ''PDB of A''] \<and>
   ''pdb'' \<in> set (directories example_world) \<and>
   fst (generate_pdbs example_predictor ''pdb'' example_hash [''A'', ''B'', ''A''] example_world)
     = Inr [''PDB of A'', ''PDB of B'', ''PDB of A''] \<and>
   predictor_calls (snd (generate_pdbs example_predictor ''pdb'' example_hash
     [''A'', ''B'', ''A''] example_world)) = [[''A'', ''B'', ''A'']] \<and>
   files example_world (make_pdb_path ''pdb'' example_hash ''B'') = None \<and>
   files (snd (generate_pdbs example_predictor ''pdb'' example_hash
     [''A'', ''B'', ''A''] example_world)) (make_pdb_path ''pdb'' example_hash ''B'')
     = Some ''PDB of B'' \<and>
   files example_world (make_pdb_path ''pdb'' example_hash ''A'') = Some ''cached PDB of A'' \<and>
   files (snd (generate_pdbs example_predictor ''pdb'' example_hash
     [''A'', ''B'', ''A''] example_world)) (make_pdb_path ''pdb'' example_hash ''A'')
     = Some ''PDB of A''"
proof -
  have p: "example_predictor [''A'', ''B'', ''A''] = Inr [''PDB of A'', ''PDB of B'', ''PDB of A'']"
    by (simp add: example_predictor_def)
  note t = generate_pdbs_predicts_whole_batch [of example_predictor "''pdb''" example_hash
      "[''A'', ''B'', ''A'']" example_world]
  from t have calls: "predictor_calls (snd (generate_pdbs example_predictor ''pdb'' example_hash
      [''A'', ''B'', ''A''] example_world)) = predictor_calls example_world @ [[''A'', ''B'', ''A'']]"
    by (rule conjunct1)
  from t p example_directory
  have "fst (generate_pdbs example_predictor ''pdb'' example_hash [''A'', ''B'', ''A''] example_world)
        = Inr [''PDB of A'', ''PDB of B'', ''PDB of A''] \<and>
      files (snd (generate_pdbs example_predictor ''pdb'' example_hash
        [''A'', ''B'', ''A''] example_world)) =
        files example_world ++ map_of (rev (zip (map (make_pdb_path ''pdb'' example_hash)
          [''A'', ''B'', ''A'']) [''PDB of A'', ''PDB of B'', ''PDB of A'']))"
    by blast
  with calls p example_directory show ?thesis
    by (simp add: example_paths) (simp add: example_world_def)
qed

section \<open>Collecting the C-alpha atoms\<close>

lemma getitem_contains: "contains r name \<Longrightarrow> getitem r name = Inr (the (map_of (child_dict r) name))"
  by (auto simp: contains_def getitem_def)

lemma collect_ca_blank_eq:
  "collect_ca_blank rs acc = Inr (acc @ map ca_of (filter qualifying rs))"
  by (induction rs arbitrary: acc) (simp_all add: qualifying_def ca_of_def getitem_contains)

lemma collect_ca_any_eq:
  "collect_ca_any rs acc = Inr (acc @ map ca_of (filter (\<lambda>r. contains r ''CA'') rs))"
  by (induction rs arbitrary: acc) (simp_all add: ca_of_def getitem_contains)

lemma structure_residues_single_chain [simp]: "structure_residues (single_chain rs) = rs"
  by (simp add: structure_residues_def single_chain_def)

lemma contains_ca_residue [simp]: "contains (ca_residue h n c) ''CA''"
  by (simp add: contains_def ca_residue_def)

lemma getitem_ca_residue [simp]: "getitem (ca_residue h n c) ''CA'' = Inr (ca_atom c)"
  by (simp add: getitem_def ca_residue_def)

lemma res_id_ca_residue [simp]: "fst (res_id (ca_residue h n c)) = h"
  by (simp add: ca_residue_def)

lemma coord_ca_atom [simp]: "coord (ca_atom c) = c"
  by (simp add: ca_atom_def)

lemma ca_of_ca_residue [simp]: "ca_of (ca_residue h n c) = ca_atom c"
  by (simp add: ca_of_def ca_residue_def)

section \<open>The distance matrix\<close>

lemma fold_invariant:
  assumes "P s" and "\<And>x s. x \<in> set xs \<Longrightarrow> P s \<Longrightarrow> P (f x s)"
  shows "P (fold f xs s)"
  using assms by (induction xs arbitrary: s) simp_all

lemma length_set_item [simp]: "length (set_item m i j v) = length m"
  by (simp add: set_item_def)

lemma length_nth_set_item [simp]: "length (set_item m i j v ! a) = length (m ! a)"
  by (cases "i < length m") (simp_all add: set_item_def nth_list_update list_update_beyond)

lemma nth_set_item:
  "a < length m \<Longrightarrow> j < length (m ! i) \<Longrightarrow>
   set_item m i j v ! a ! b = (if a = i \<and> b = j then v else m ! a ! b)"
  by (cases "a = i"; cases "b = j") (simp_all add: set_item_def)

lemma distance_step_invariant:
  assumes "symmetric_zero_diagonal n m" "i < n" "j < n" "i \<noteq> j"
  shows "symmetric_zero_diagonal n (distance_step ca i j m)"
  using assms
  unfolding symmetric_zero_diagonal_def distance_step_def Let_def
  by (auto simp: nth_set_item)

lemma zeros_invariant: "symmetric_zero_diagonal n (zeros n n)"
  by (simp add: symmetric_zero_diagonal_def zeros_def)

lemma distance_rows_invariant: "symmetric_zero_diagonal (length ca) (distance_rows ca)"
  unfolding distance_rows_def Let_def
proof (rule fold_invariant [where P = "symmetric_zero_diagonal (length ca)", OF zeros_invariant])
  fix i m
  assume i: "i \<in> set [0..<length ca]" and m: "symmetric_zero_diagonal (length ca) m"
  show "symmetric_zero_diagonal (length ca) (fold (distance_step ca i) [i + 1..<length ca] m)"
  proof (rule fold_invariant [where P = "symmetric_zero_diagonal (length ca)", OF m])
    fix j m'
    assume "j \<in> set [i + 1..<length ca]" "symmetric_zero_diagonal (length ca) m'"
    with i show "symmetric_zero_diagonal (length ca) (distance_step ca i j m')"
      by (intro distance_step_invariant) simp_all
  qed
qed





lemma distance_rows_few: "length ca < 2 \<Longrightarrow> distance_rows ca = zeros (length ca) (length ca)"
proof -
  assume "length ca < 2"
  then consider "length ca = 0" | "length ca = 1" by linarith
  then show ?thesis
    by cases (simp_all add: distance_rows_def)
qed

text \<open>
  C8, as the claim states it, fails: a structure with exactly one qualifying residue
  gives the \<open>1 \<times> 1\<close> matrix \<open>[[0.]]\<close>, not the empty one.
\<close>

theorem distance_matrix_of_one_residue:
  "length (filter qualifying (structure_residues one_residue_chain)) = 1 \<and>
   get_distance_matrix (parsed_as one_residue_chain) '''' = Inr [[Fin 0]] \<and>
   get_distance_matrix (parsed_as one_residue_chain) '''' \<noteq> Inr []"
  by (simp add: one_residue_chain_def qualifying_def get_distance_matrix_def parsed_as_def
      distance_rows_def zeros_def)

text \<open>
  C8, amended. For every parsed structure with fewer than 2 qualifying residues,
  \<open>get_distance_matrix\<close> returns without error the matrix of zeros with one row and one
  column per qualifying residue: the empty \<open>0 \<times> 0\<close> matrix for none, \<open>[[0.]]\<close> for one.
\<close>

theorem distance_matrix_of_few_residues:
  assumes "get_structure pdb = Inr s" "length (filter qualifying (structure_residues s)) < 2"
  shows "get_distance_matrix get_structure pdb =
         Inr (if filter qualifying (structure_residues s) = [] then [] else [[Fin 0]])"
proof -
  let ?ca = "map ca_of (filter qualifying (structure_residues s))"
  have "get_distance_matrix get_structure pdb = Inr (distance_rows ?ca)"
    using assms(1) by (simp add: get_distance_matrix_def collect_ca_blank_eq)
  also have "distance_rows ?ca = zeros (length ?ca) (length ?ca)"
    using assms(2) by (intro distance_rows_few) simp
  also have "\<dots> = (if filter qualifying (structure_residues s) = [] then [] else [[Fin 0]])"
  proof -
    have "length ?ca < 2" using assms(2) by simp
    then consider "length ?ca = 0" | "length ?ca = 1" by linarith
    then show ?thesis by cases (auto simp: zeros_def)
  qed
  finally show ?thesis .
qed

theorem distance_matrix_of_few_residues_witness:
  "parsed_as one_residue_chain '''' = Inr one_residue_chain \<and>
   length (filter qualifying (structure_residues one_residue_chain)) < 2 \<and>
   get_distance_matrix (parsed_as one_residue_chain) '''' = Inr [[Fin 0]] \<and>
   get_distance_matrix (parsed_as (single_chain [ca_residue ''W'' 1 (Fin 1, Fin 2, Fin 3)])) '''' = Inr []"
proof -
  have p: "parsed_as one_residue_chain '''' = Inr one_residue_chain"
    by (simp add: parsed_as_def)
  have q: "length (filter qualifying (structure_residues one_residue_chain)) < 2"
    by (simp add: one_residue_chain_def)
  let ?water = "single_chain [ca_residue ''W'' 1 (Fin 1, Fin 2, Fin 3)]"
  have p': "parsed_as ?water '''' = Inr ?water"
    by (simp add: parsed_as_def)
  have q': "length (filter qualifying (structure_residues ?water)) < 2"
    by simp
  from distance_matrix_of_few_residues [of "parsed_as one_residue_chain" "''''" one_residue_chain, OF p q]
    distance_matrix_of_few_residues [of "parsed_as ?water" "''''" ?water, OF p' q'] p q
  show ?thesis
    by (simp add: one_residue_chain_def qualifying_def)
qed

section \<open>The quaternions\<close>

lemma normalise_zero_difference: "vdiv (vsub c c) (norm3 (vsub c c)) = (NaN, NaN, NaN)"
proof -
  obtain x y z where c: "c = (x, y, z)" by (cases c) auto
  show ?thesis
    unfolding c by (cases x; cases y; cases z) (simp_all add: fsub_def norm3_def)
qed

lemma tangent_vectors_coincident:
  assumes "Suc i < length ca" "coord (ca ! Suc i) = coord (ca ! i)"
  shows "tangent_vectors ca ! i = (NaN, NaN, NaN)"
proof -
  from assms(1) have "i < length ca - 1" by simp
  then have "tangent_vectors ca ! i =
      vdiv (vsub (coord (ca ! (i + 1))) (coord (ca ! i)))
           (norm3 (vsub (coord (ca ! (i + 1))) (coord (ca ! i))))"
    by (simp add: tangent_vectors_def Let_def)
  with assms(2) show ?thesis
    by (simp add: normalise_zero_difference)
qed

lemma length_tangent_vectors: "length (tangent_vectors ca) = length ca - 1"
  by (simp add: tangent_vectors_def)

lemma length_consecutive_quaternions: "length (consecutive_quaternions A vs) = length vs - 1"
  by (simp add: consecutive_quaternions_def)

lemma rounded_simps [simp]:
  "rounded rnd (Fin a) = rnd a"
  "rounded rnd NaN = NaN"
  "rounded rnd PInf = PInf"
  "rounded rnd NInf = NInf"
  by (simp_all add: rounded_def)

lemma exact_arith_simps [simp]:
  "round_v exact_arith = Fin"
  "round_q exact_arith = Fin"
  "dot_v exact_arith = dot"
  "dot_q exact_arith = dot4"
  by (simp_all add: exact_arith_def)

text \<open>
  C4, as the claim states it, fails: for a chain whose first two C-alpha atoms coincide,
  the first normalised vector is \<open>(NaN, NaN, NaN)\<close> and \<open>compute_quaternions\<close> returns a
  NaN quaternion; nothing is raised.
\<close>

theorem coincident_atoms_give_nan:
  "tangent_vectors
     [ca_atom (Fin 0, Fin 0, Fin 0), ca_atom (Fin 0, Fin 0, Fin 0), ca_atom (Fin 1, Fin 0, Fin 0)]
     = [(NaN, NaN, NaN), (Fin 1, Fin 0, Fin 0)] \<and>
   compute_quaternions exact_arith (parsed_as coincident_chain) '''' = Inr [(NaN, NaN, NaN, NaN)]"
  by (simp add: compute_quaternions_def parsed_as_def coincident_chain_def
      consecutive_quaternions_def tangent_vectors_def fsub_def norm3_def dot_def upt_rec
      numeral_eq_Suc quaternion_from_vectors_def quaternion_parts_def Let_def)

text \<open>
  C4, amended. For every parsed structure, \<open>compute_quaternions\<close> raises nothing: it
  returns the quaternions of the normalised vectors of its C-alpha atoms, and wherever two
  consecutive C-alpha coordinates coincide, the normalised vector there is the zero
  vector divided by its zero norm, \<open>(NaN, NaN, NaN)\<close>.
\<close>

theorem compute_quaternions_coincident_atoms:
  assumes "get_structure pdb = Inr s"
  shows "\<exists>ca. collect_ca_any (structure_residues s) [] = Inr ca \<and>
           compute_quaternions A get_structure pdb
             = Inr (consecutive_quaternions A (tangent_vectors ca)) \<and>
           (\<forall>i. Suc i < length ca \<and> coord (ca ! Suc i) = coord (ca ! i) \<longrightarrow>
                  tangent_vectors ca ! i = (NaN, NaN, NaN))"
  using assms
  by (simp add: compute_quaternions_def collect_ca_any_eq tangent_vectors_coincident)

theorem compute_quaternions_coincident_atoms_witness:
  "parsed_as coincident_chain '''' = Inr coincident_chain \<and>
   compute_quaternions exact_arith (parsed_as coincident_chain) '''' =
     Inr (consecutive_quaternions exact_arith (tangent_vectors
       [ca_atom (Fin 0, Fin 0, Fin 0), ca_atom (Fin 0, Fin 0, Fin 0), ca_atom (Fin 1, Fin 0, Fin 0)])) \<and>
   tangent_vectors
     [ca_atom (Fin 0, Fin 0, Fin 0), ca_atom (Fin 0, Fin 0, Fin 0), ca_atom (Fin 1, Fin 0, Fin 0)] ! 0
     = (NaN, NaN, NaN)"
proof -
  have p: "parsed_as coincident_chain '''' = Inr coincident_chain"
    by (simp add: parsed_as_def)
  from compute_quaternions_coincident_atoms
    [of "parsed_as coincident_chain" "''''" coincident_chain exact_arith, OF p]
  obtain ca where ca: "collect_ca_any (structure_residues coincident_chain) [] = Inr ca"
    and cq: "compute_quaternions exact_arith (parsed_as coincident_chain) '''' =
        Inr (consecutive_quaternions exact_arith (tangent_vectors ca))"
    and nan: "\<forall>i. Suc i < length ca \<and> coord (ca ! Suc i) = coord (ca ! i) \<longrightarrow>
        tangent_vectors ca ! i = (NaN, NaN, NaN)"
    by blast
  from ca have "ca = [ca_atom (Fin 0, Fin 0, Fin 0), ca_atom (Fin 0, Fin 0, Fin 0),
      ca_atom (Fin 1, Fin 0, Fin 0)]"
    by (simp add: coincident_chain_def)
  with cq nan [rule_format, of 0] p show ?thesis
    by simp
qed






section \<open>The two selections of residues\<close>

lemma length_distance_rows: "length (distance_rows ca) = length ca"
  using distance_rows_invariant [of ca] by (simp add: symmetric_zero_diagonal_def)

text \<open>
  C10. For every parsed structure, \<open>get_distance_matrix\<close> builds its matrix from the
  C-alpha atoms of the residues with a blank hetero flag and an atom named CA, and
  \<open>compute_quaternions\<close> its quaternions from those of every residue with an atom named
  CA. On the chain of two residues followed by a calcium ion the two lists of atoms
  differ: the matrix has two rows, one per residue, while the quaternion chain has one
  quaternion, which takes three atoms.
\<close>

theorem residue_filters_differ:
  assumes "get_structure pdb = Inr s"
  shows "get_distance_matrix get_structure pdb =
           Inr (distance_rows (map ca_of
             (filter (\<lambda>r. fst (res_id r) = '' '' \<and> contains r ''CA'') (structure_residues s)))) \<and>
         compute_quaternions A get_structure pdb =
           Inr (consecutive_quaternions A (tangent_vectors (map ca_of
             (filter (\<lambda>r. contains r ''CA'') (structure_residues s))))) \<and>
         map ca_of (filter (\<lambda>r. fst (res_id r) = '' '' \<and> contains r ''CA'')
             (structure_residues calcium_chain))
           \<noteq> map ca_of (filter (\<lambda>r. contains r ''CA'') (structure_residues calcium_chain)) \<and>
         (\<exists>m qs. get_distance_matrix (parsed_as calcium_chain) '''' = Inr m \<and> length m = 2 \<and>
                  compute_quaternions A (parsed_as calcium_chain) '''' = Inr qs \<and> length qs = 1)"
proof -
  have dm: "get_distance_matrix g p = Inr (distance_rows (map ca_of
      (filter (\<lambda>r. fst (res_id r) = '' '' \<and> contains r ''CA'') (structure_residues t))))"
    if "g p = Inr t" for g p t
    using that collect_ca_blank_eq [of "structure_residues t" "[]"]
    by (simp add: get_distance_matrix_def qualifying_def [abs_def])
  have cq: "compute_quaternions A g p = Inr (consecutive_quaternions A (tangent_vectors (map ca_of
      (filter (\<lambda>r. contains r ''CA'') (structure_residues t)))))"
    if "g p = Inr t" for g p t
    using that by (simp add: compute_quaternions_def collect_ca_any_eq)
  have parsed: "parsed_as calcium_chain '''' = Inr calcium_chain"
    by (simp add: parsed_as_def)
  have blank: "length (filter (\<lambda>r. fst (res_id r) = '' '' \<and> contains r ''CA'')
      (structure_residues calcium_chain)) = 2"
    and every: "length (filter (\<lambda>r. contains r ''CA'') (structure_residues calcium_chain)) = 3"
    by (simp_all add: calcium_chain_def)
  have differ: "map ca_of (filter (\<lambda>r. fst (res_id r) = '' '' \<and> contains r ''CA'')
      (structure_residues calcium_chain))
      \<noteq> map ca_of (filter (\<lambda>r. contains r ''CA'') (structure_residues calcium_chain))"
  proof
    assume "map ca_of (filter (\<lambda>r. fst (res_id r) = '' '' \<and> contains r ''CA'')
      (structure_residues calcium_chain))
      = map ca_of (filter (\<lambda>r. contains r ''CA'') (structure_residues calcium_chain))"
    then have "length (filter (\<lambda>r. fst (res_id r) = '' '' \<and> contains r ''CA'')
      (structure_residues calcium_chain))
      = length (filter (\<lambda>r. contains r ''CA'') (structure_residues calcium_chain))"
      by (rule map_eq_imp_length_eq)
    with blank every show False
      by simp
  qed
  have rows: "length (distance_rows (map ca_of (filter (\<lambda>r. fst (res_id r) = '' '' \<and> contains r ''CA'')
      (structure_residues calcium_chain)))) = 2"
    by (simp only: length_distance_rows length_map blank)
  have quats: "length (consecutive_quaternions A (tangent_vectors (map ca_of
      (filter (\<lambda>r. contains r ''CA'') (structure_residues calcium_chain))))) = 1"
    by (simp add: length_consecutive_quaternions length_tangent_vectors every)
  have both: "\<exists>m qs. get_distance_matrix (parsed_as calcium_chain) '''' = Inr m \<and>
      length m = 2 \<and> compute_quaternions A (parsed_as calcium_chain) '''' = Inr qs \<and> length qs = 1"
    using dm [of "parsed_as calcium_chain" "''''" calcium_chain, OF parsed]
      cq [of "parsed_as calcium_chain" "''''" calcium_chain, OF parsed] rows quats by (intro exI conjI)
  from dm [of get_structure pdb s, OF assms] cq [of get_structure pdb s, OF assms] differ both show ?thesis
    by (intro conjI)
qed

theorem residue_filters_differ_witness:
  "parsed_as calcium_chain '''' = Inr calcium_chain \<and>
   get_distance_matrix (parsed_as calcium_chain) '''' =
     Inr (distance_rows [ca_atom (Fin 0, Fin 0, Fin 0), ca_atom (Fin 1, Fin 0, Fin 0)]) \<and>
   compute_quaternions exact_arith (parsed_as calcium_chain) '''' =
     Inr (consecutive_quaternions exact_arith (tangent_vectors
       [ca_atom (Fin 0, Fin 0, Fin 0), ca_atom (Fin 1, Fin 0, Fin 0),
        ca_atom (Fin 1, Fin 1, Fin 0)]))"
proof -
  have parsed: "parsed_as calcium_chain '''' = Inr calcium_chain"
    by (simp add: parsed_as_def)
  from residue_filters_differ [of "parsed_as calcium_chain" "''''" calcium_chain exact_arith,
      OF parsed] parsed
  show ?thesis
    by (simp add: calcium_chain_def)
qed

section \<open>The length bound\<close>

lemma pow2_powr: "pow2 e = 2 powr real_of_int e"
proof (cases "0 \<le> e")
  case True
  then have "real_of_int e = real (nat e)" by simp
  then have "2 powr real_of_int e = (2::real) ^ nat e"
    by (simp only: powr_realpow zero_less_numeral)
  with True show ?thesis by (simp add: pow2_def)
next
  case False
  then have "real_of_int e = - real (nat (- e))" by simp
  then have "2 powr real_of_int e = 1 / (2::real) ^ nat (- e)"
    by (simp only: powr_minus powr_realpow zero_less_numeral inverse_eq_divide)
  with False show ?thesis by (simp add: pow2_def)
qed

lemma pow2_add: "pow2 (a + b) = pow2 a * pow2 b"
  by (simp add: pow2_powr powr_add)

lemma pow2_int: "pow2 (int n) = 2 ^ n"
  by (simp add: pow2_def)

lemma pow2_neg: "pow2 (- int n) = 1 / 2 ^ n"
  by (cases n) (simp_all add: pow2_def nat_add_distrib)

lemma bitlen_0: "bitlen 0 = 0"
  by (simp add: bitlen.simps)

lemma bitlen_pos: "0 < n \<Longrightarrow> bitlen n = Suc (bitlen (n div 2))"
  by (subst bitlen.simps) simp

lemma bitlen_bounds: "0 < n \<Longrightarrow> 2 ^ (bitlen n - 1) \<le> n \<and> n < 2 ^ bitlen n"
proof (induction n rule: bitlen.induct)
  case (1 n)
  show ?case
  proof (cases "n div 2 = 0")
    case True
    with "1.prems" have "n = 1" by (simp add: div_eq_0_iff) 
    then show ?thesis by (simp add: bitlen_pos bitlen_0)
  next
    case False
    then have half: "0 < n div 2" by simp
    with "1.IH" "1.prems" have ih: "2 ^ (bitlen (n div 2) - 1) \<le> n div 2" "n div 2 < 2 ^ bitlen (n div 2)"
      by simp_all
    from half have b: "0 < bitlen (n div 2)" by (simp add: bitlen_pos)
    have eq: "bitlen n = Suc (bitlen (n div 2))" using "1.prems" by (rule bitlen_pos)
    from b have "(2::nat) ^ bitlen (n div 2) = 2 * 2 ^ (bitlen (n div 2) - 1)"
      by (metis Suc_pred' power_Suc)
    with ih(1) have "2 ^ bitlen (n div 2) \<le> 2 * (n div 2)" by simp
    also have "\<dots> \<le> n" by simp
    finally have lower: "2 ^ (bitlen n - 1) \<le> n" by (simp add: eq)
    from ih(2) have "n div 2 + 1 \<le> 2 ^ bitlen (n div 2)" by simp
    then have "2 * (n div 2) + 2 \<le> 2 * 2 ^ bitlen (n div 2)" by simp
    moreover have "n < 2 * (n div 2) + 2" by presburger
    ultimately have "n < 2 ^ bitlen n" by (simp add: eq)
    with lower show ?thesis by simp
  qed
qed

lemma bitlen_le: "n < 2 ^ k \<Longrightarrow> bitlen n \<le> k"
proof (cases "n = 0")
  case True
  then show ?thesis by (simp add: bitlen_0)
next
  case False
  assume "n < 2 ^ k"
  moreover from False have "2 ^ (bitlen n - 1) \<le> n" using bitlen_bounds [of n] by simp
  ultimately have "(2::nat) ^ (bitlen n - 1) < 2 ^ k" by (rule le_less_trans [rotated])
  then have "bitlen n - 1 < k" by (rule power_less_imp_less_exp [rotated]) simp
  then show ?thesis by simp
qed

lemma bitlen_gt: "2 ^ k \<le> n \<Longrightarrow> k < bitlen n"
proof -
  assume k: "2 ^ k \<le> n"
  then have "0 < n" by (cases "n = 0") simp_all
  then have "n < 2 ^ bitlen n" using bitlen_bounds [of n] by simp
  with k have "(2::nat) ^ k < 2 ^ bitlen n" by (rule le_less_trans)
  then show ?thesis by (rule power_less_imp_less_exp [rotated]) simp
qed

lemma round_half_even_error:
  "2 * \<bar>int (round_half_even m s) * 2 ^ s - int m\<bar> \<le> 2 ^ s"
proof -
  define q r where "q = m div 2 ^ s" and "r = m mod 2 ^ s"
  have "m = q * 2 ^ s + r"
    unfolding q_def r_def by (rule div_mult_mod_eq [symmetric])
  then have "int m = int (q * 2 ^ s + r)" by simp
  then have m: "int m = int q * 2 ^ s + int r" by simp
  have "r < 2 ^ s" unfolding r_def by simp
  then have "int r < int (2 ^ s)" by (simp only: of_nat_less_iff)
  then have r: "int r < 2 ^ s" by simp
  consider "2 * r < 2 ^ s" | "2 ^ s < 2 * r" | "2 * r = 2 ^ s" by linarith
  then show ?thesis
  proof cases
    case 1
    then have "round_half_even m s = q"
      by (simp add: round_half_even_def q_def r_def Let_def)
    then have d: "int (round_half_even m s) * 2 ^ s - int m = - int r"
      using m by simp
    from 1 have "int (2 * r) < int (2 ^ s)" by (simp only: of_nat_less_iff)
    then have "2 * int r < 2 ^ s" by simp
    then show ?thesis unfolding d by simp
  next
    case 2
    then have "round_half_even m s = q + 1"
      by (simp add: round_half_even_def q_def r_def Let_def)
    then have d: "int (round_half_even m s) * 2 ^ s - int m = 2 ^ s - int r"
      using m by (simp add: algebra_simps)
    from 2 have "int (2 ^ s) < int (2 * r)" by (simp only: of_nat_less_iff)
    then have "2 ^ s < 2 * int r" by simp
    with r show ?thesis unfolding d by simp
  next
    case 3
    then have "int (2 * r) = int (2 ^ s)" by simp
    then have half: "2 * int r = 2 ^ s" by simp
    from 3 have "round_half_even m s = q \<or> round_half_even m s = q + 1"
      by (simp add: round_half_even_def q_def r_def Let_def)
    then have "int (round_half_even m s) * 2 ^ s - int m = - int r \<or>
        int (round_half_even m s) * 2 ^ s - int m = 2 ^ s - int r"
      using m by (auto simp: algebra_simps)
    then show ?thesis using half r by auto
  qed
qed

lemma round_half_even_zero_shift: "round_half_even m 0 = m"
  by (simp add: round_half_even_def)

lemma round_half_even_upper: "round_half_even m s \<le> m + 1"
proof -
  have "m div 2 ^ s \<le> m" by (rule div_le_dividend)
  then show ?thesis by (auto simp: round_half_even_def Let_def intro: le_SucI)
qed

lemma float_of_int_exact:
  assumes "0 \<le> a" "a < 2 ^ 53"
  shows "float_of_int a = Inr (F64 a 0)"
proof -
  from assms have "nat a < 2 ^ 53" by (simp add: nat_less_iff)
  then have l: "bitlen (nat a) \<le> 53" by (rule bitlen_le)
  then have s: "nat (max (int (bitlen (nat \<bar>a\<bar>)) + 0 - 53) (- 1074) - 0) = 0"
    using assms(1) by simp
  have "sgn a * a = a" using assms(1) by (cases "a = 0") simp_all
  then show ?thesis
    using assms(1) l unfolding float_of_int_def round64_def Let_def s
    by (simp add: round_half_even_zero_shift)
qed

lemma round64_zero: "round64 0 (- 51) = F64 0 (- 51)"
  by (simp add: round64_def bitlen_0 round_half_even_def Let_def)

lemma pow2_shift: "pow2 (int s - 51) = 2 ^ s / 2 ^ 51"
proof -
  have "pow2 (int s - 51) = pow2 (int s + - 51)" by simp
  also have "\<dots> = pow2 (int s) * pow2 (- 51)" by (rule pow2_add)
  also have "pow2 (- 51) = 1 / 2 ^ 51" by (simp add: pow2_def)
  finally show ?thesis by (simp add: pow2_int)
qed

lemma round64_product:
  assumes "1 \<le> a" "a < 2 ^ 53"
  shows "\<exists>q s. round64 (a * 8556839292003942) (- 51) = F64 (int q) (int s - 51) \<and>
           \<bar>real q * 2 ^ s - real_of_int (a * 8556839292003942)\<bar> * 2 ^ 53
             \<le> real_of_int (a * 8556839292003942)"
proof -
  define P where "P = nat (a * 8556839292003942)"
  define l where "l = bitlen P"
  define s where "s = l - 53"
  define q where "q = round_half_even P s"
  have P_int: "int P = a * 8556839292003942"
    using assms(1) by (simp add: P_def)
  have "(2::int) ^ 52 \<le> 1 * 8556839292003942" by simp
  also have "\<dots> \<le> a * 8556839292003942"
    using assms(1) by (intro mult_right_mono) simp_all
  finally have "int (2 ^ 52) \<le> int P" by (simp add: P_int)
  then have P_low: "2 ^ 52 \<le> P" by (simp only: of_nat_le_iff)
  then have l_low: "52 < l" unfolding l_def by (rule bitlen_gt)
  have "a * 8556839292003942 < 2 ^ 53 * 2 ^ 53"
    using assms by (intro mult_strict_mono) simp_all
  then have "int P < int (2 ^ 106)" by (simp add: P_int)
  then have P_up: "P < 2 ^ 106" by (simp only: of_nat_less_iff)
  then have l_up: "l \<le> 106" unfolding l_def by (rule bitlen_le)
  have P_pos: "0 < P" using P_low by simp
  have l_s: "l = s + 53" using l_low by (simp add: s_def)
  have shift: "nat (max (int l + - 51 - 53) (- 1074) - - 51) = s"
    using l_low by (simp add: s_def)
  have s_up: "s \<le> 53" using l_up by (simp add: s_def)
  have "2 ^ (l - 1) \<le> P"
    using bitlen_bounds [OF P_pos] by (simp add: l_def)
  then have "(2::nat) ^ s * 2 ^ 52 \<le> P"
    by (simp add: l_s power_add)
  then have "real (2 ^ s * 2 ^ 52) \<le> real P" by (simp only: of_nat_le_iff)
  then have low: "(2::real) ^ s * 2 ^ 52 \<le> real P" by simp
  have "2 * \<bar>int q * 2 ^ s - int P\<bar> \<le> 2 ^ s"
    unfolding q_def by (rule round_half_even_error)
  then have "real_of_int (2 * \<bar>int q * 2 ^ s - int P\<bar>) \<le> real_of_int (2 ^ s)"
    by (simp only: of_int_le_iff)
  then have err: "2 * \<bar>real q * 2 ^ s - real P\<bar> \<le> 2 ^ s" by simp
  have "\<bar>real q * 2 ^ s - real P\<bar> * 2 ^ 53 = 2 * \<bar>real q * 2 ^ s - real P\<bar> * 2 ^ 52"
    by simp
  also have "\<dots> \<le> 2 ^ s * 2 ^ 52"
    using err by (intro mult_right_mono) simp_all
  also have "\<dots> \<le> real P" by (rule low)
  finally have bound: "\<bar>real q * 2 ^ s - real P\<bar> * 2 ^ 53 \<le> real P" .
  have "q \<le> P + 1" unfolding q_def by (rule round_half_even_upper)
  with P_up have "q < 2 ^ 107" by simp
  then have "bitlen q \<le> 107" by (rule bitlen_le)
  with s_up have no_overflow: "\<not> 1024 < int (bitlen q) + - 51 + int s" by simp
  have sgn: "sgn (a * 8556839292003942) = 1" using assms(1) by simp
  have abs: "nat \<bar>a * 8556839292003942\<bar> = P" using assms(1) by (simp add: P_def)
  have "round64 (a * 8556839292003942) (- 51) = F64 (int q) (- 51 + int s)"
    unfolding round64_def Let_def abs l_def [symmetric] shift q_def [symmetric] sgn
    using no_overflow by simp
  moreover have "real_of_int (a * 8556839292003942) = real P"
    using P_int by (metis of_int_of_nat_eq)
  ultimately show ?thesis using bound by (auto simp: add.commute)
qed

lemma length_constant_error: "(38 / 10 :: real) * 2 ^ 51 - 8556839292003942 = 4 / 10"
  by simp

lemma scaled_length_error:
  fixes x :: real
  assumes "0 \<le> x"
  shows "x * (38 / 10) - x * 8556839292003942 / 2 ^ 51 = x * (4 / 10) / 2 ^ 51"
proof -
  have "x * (38 / 10) - x * 8556839292003942 / 2 ^ 51
      = x * ((38 / 10) * 2 ^ 51 - 8556839292003942) / 2 ^ 51"
    by (simp add: algebra_simps diff_divide_distrib)
  then show ?thesis by (simp only: length_constant_error)
qed

lemma rounded_product_close:
  fixes x v c :: real
  assumes x: "0 \<le> x"
    and c: "x * (38 / 10) - c = x * (4 / 10) / 2 ^ 51"
    and v: "\<bar>v - c\<bar> * 2 ^ 53 \<le> c"
  shows "\<bar>v - x * (38 / 10)\<bar> \<le> x * (38 / 10) / 2 ^ 52"
proof -
  define u where "u = x / 2 ^ 53"
  have u: "0 \<le> u" using x by (simp add: u_def)
  have x_u: "x = u * 2 ^ 53" by (simp add: u_def)
  have "x * (4 / 10) / 2 ^ 51 = u * (16 / 10)"
    by (simp add: x_u)
  with c have c_eq: "c = x * (38 / 10) - u * (16 / 10)" by simp
  then have c_le: "c \<le> x * (38 / 10)" using u by simp
  have "\<bar>v - c\<bar> \<le> c / 2 ^ 53"
    using v by (simp add: pos_le_divide_eq)
  also have "\<dots> \<le> x * (38 / 10) / 2 ^ 53"
    using c_le by (rule divide_right_mono) simp
  also have "\<dots> = u * (38 / 10)" by (simp add: u_def)
  finally have e: "\<bar>v - c\<bar> \<le> u * (38 / 10)" .
  have "x * (38 / 10) / 2 ^ 52 = u * (76 / 10)" by (simp add: x_u)
  moreover have "\<bar>v - x * (38 / 10)\<bar> \<le> \<bar>v - c\<bar> + u * (16 / 10)"
    unfolding c_eq using u by simp
  ultimately show ?thesis using e u by simp
qed

lemma amino_acid_length_is_nearest:
  "(2::int) ^ 52 \<le> 8556839292003942 \<and> 8556839292003942 < (2::int) ^ 53 \<and>
   \<bar>(38 / 10 :: real) * 2 ^ 51 - 8556839292003942\<bar> < 1 / 2"
  by simp

lemma round_half_even_lower: "m div 2 ^ s \<le> round_half_even m s"
  by (simp add: round_half_even_def Let_def)

lemma float_of_int_overflow:
  assumes k: "2 ^ k \<le> i" and big: "1024 \<le> k"
  shows "float_of_int i = Inl OverflowError"
proof -
  define m where "m = nat i"
  from k have ipos: "0 < i"
    by (rule less_le_trans [rotated]) simp
  then have mi: "\<bar>i\<bar> = int m" "nat \<bar>i\<bar> = m"
    by (simp_all add: m_def)
  from k ipos have "int (2 ^ k) \<le> int m"
    by (simp add: m_def)
  then have km: "2 ^ k \<le> m"
    by (simp only: of_nat_le_iff)
  define l where "l = bitlen m"
  from km have kl: "k < l"
    unfolding l_def by (rule bitlen_gt)
  with big have l: "1024 < l"
    by simp
  define s where "s = l - 53"
  have s: "nat (max (int l + 0 - 53) (- 1074) - 0) = s"
    using l by (simp add: s_def)
  define q where "q = round_half_even m s"
  from km have mpos: "0 < m"
    by (cases "m = 0") simp_all
  then have "2 ^ (l - 1) \<le> m"
    unfolding l_def using bitlen_bounds [of m] by simp
  moreover have "l - 1 = 52 + s"
    using l by (simp add: s_def)
  then have "(2::nat) ^ (l - 1) = 2 ^ 52 * 2 ^ s"
    by (simp only: power_add)
  ultimately have "2 ^ 52 * 2 ^ s \<le> m"
    by (simp only:)
  moreover have "(0::nat) < 2 ^ s"
    by simp
  ultimately have "2 ^ 52 \<le> m div 2 ^ s"
    by (simp only: less_eq_div_iff_mult_less_eq)
  also have "\<dots> \<le> q"
    unfolding q_def by (rule round_half_even_lower)
  finally have "52 < bitlen q"
    by (rule bitlen_gt)
  with l have over: "1024 < int (bitlen (nat (int q))) + 0 + int s"
    by (simp add: s_def)
  have "round64 i 0 =
      (if 1024 < int (bitlen (nat (int q))) + 0 + int s
       then (if i < 0 then F64_NInf else F64_PInf)
       else F64 (sgn i * int q) (0 + int s))"
    by (simp only: round64_def Let_def mi(2) l_def [symmetric] s q_def [symmetric])
  with over ipos have "round64 i 0 = F64_PInf"
    by simp
  then show ?thesis
    by (simp add: float_of_int_def)
qed

text \<open>
  From \<open>2 ^ 1024\<close> on, the difference has no float: the conversion raises
  OverflowError and \<open>get_max_physical_protein_length_A\<close> returns nothing.
\<close>

lemma max_physical_length_overflow:
  assumes "2 ^ 1024 \<le> n - 1"
  shows "get_max_physical_protein_length_A n = Inl OverflowError"
proof -
  from assms have "float_of_int (n - 1) = Inl OverflowError"
    by (rule float_of_int_overflow) (rule order_refl)
  then show ?thesis
    by (simp only: get_max_physical_protein_length_A_def sum.case)
qed

lemma max_physical_length_of_four:
  "get_max_physical_protein_length_A 4 = Inr (F64 6417629469002956 (- 49))"
  by (simp add: get_max_physical_protein_length_A_def float_of_int_def round64_def
      AMINO_ACID_LENGTH_ANGSTROM_def bitlen.simps round_half_even_def Let_def)

text \<open>
  C9, as the claim states it, fails: for 4 residues the function returns the float
  \<open>6417629469002956 * 2 ^ -49\<close>, which Python prints as \<open>11.399999999999999\<close>, and not
  \<open>(4 - 1) * 3.8 = 11.4\<close>.
\<close>

theorem max_physical_length_not_exact:
  "get_max_physical_protein_length_A 4 = Inr (F64 6417629469002956 (- 49)) \<and>
   real_of_int 6417629469002956 * pow2 (- 49) \<noteq> (4 - 1) * 3.8"
  by (simp add: max_physical_length_of_four) (simp add: pow2_def)

text \<open>
  C9, amended. For every number of residues \<open>n\<close> with \<open>1 \<le> n \<le> 2 ^ 53\<close>,
  \<open>get_max_physical_protein_length_A n\<close> returns without error the float nearest to
  \<open>(n - 1) * c\<close>, where \<open>c = 8556839292003942 * 2 ^ -51\<close> is the float of the literal
  \<open>3.8\<close>; that float differs from \<open>(n - 1) * 3.8\<close> by at most the fraction \<open>2 ^ -52\<close> of
  it.
\<close>

theorem max_physical_length:
  assumes "1 \<le> n" "n \<le> 2 ^ 53"
  shows "\<exists>m e. get_max_physical_protein_length_A n = Inr (F64 m e) \<and>
           F64 m e = round64 ((n - 1) * 8556839292003942) (- 51) \<and>
           \<bar>real_of_int m * pow2 e - real_of_int (n - 1) * 3.8\<bar>
             \<le> real_of_int (n - 1) * 3.8 / 2 ^ 52"
proof -
  define a where "a = n - 1"
  have a: "0 \<le> a" "a < 2 ^ 53" using assms by (simp_all add: a_def)
  have conv: "float_of_int a = Inr (F64 a 0)" using a by (rule float_of_int_exact)
  have run: "get_max_physical_protein_length_A n = Inr (round64 (a * 8556839292003942) (- 51))"
    by (simp add: get_max_physical_protein_length_A_def a_def [symmetric] conv
        AMINO_ACID_LENGTH_ANGSTROM_def)
  show ?thesis
  proof (cases "a = 0")
    case True
    then have "round64 (a * 8556839292003942) (- 51) = F64 0 (- 51)"
      by (simp add: round64_zero)
    with run True show ?thesis
      by (simp add: a_def [symmetric])
  next
    case False
    with a have "1 \<le> a" by simp
    from round64_product [OF this a(2)] obtain q s
      where r: "round64 (a * 8556839292003942) (- 51) = F64 (int q) (int s - 51)"
        and b: "\<bar>real q * 2 ^ s - real_of_int (a * 8556839292003942)\<bar> * 2 ^ 53
             \<le> real_of_int (a * 8556839292003942)"
      by blast
    define x where "x = real_of_int a"
    define v where "v = real q * 2 ^ s / 2 ^ 51"
    define c where "c = x * 8556839292003942 / 2 ^ 51"
    have x: "0 \<le> x" using a(1) by (simp add: x_def)
    have val: "real_of_int (int q) * pow2 (int s - 51) = v"
      by (simp add: v_def pow2_shift)
    have prod: "real_of_int (a * 8556839292003942) = x * 8556839292003942"
      by (simp add: x_def)
    have "\<bar>v - c\<bar> = \<bar>real q * 2 ^ s - x * 8556839292003942\<bar> / 2 ^ 51"
      unfolding v_def c_def by (simp only: diff_divide_distrib [symmetric] abs_divide) simp
    then have "\<bar>v - c\<bar> * 2 ^ 53
        = \<bar>real q * 2 ^ s - x * 8556839292003942\<bar> * 2 ^ 53 / 2 ^ 51"
      by (simp only: times_divide_eq_left)
    also have "\<dots> \<le> x * 8556839292003942 / 2 ^ 51"
      using b unfolding prod by (rule divide_right_mono) simp
    finally have e1: "\<bar>v - c\<bar> * 2 ^ 53 \<le> c" by (simp only: c_def)
    have e2: "x * (38 / 10) - c = x * (4 / 10) / 2 ^ 51"
      unfolding c_def using x by (rule scaled_length_error)
    have "\<bar>v - x * (38 / 10)\<bar> \<le> x * (38 / 10) / 2 ^ 52"
      using x e2 e1 by (rule rounded_product_close)
    then have "\<bar>v - x * 3.8\<bar> \<le> x * 3.8 / 2 ^ 52" by simp
    with run r val show ?thesis
      by (simp add: a_def [symmetric] x_def [symmetric])
  qed
qed

theorem max_physical_length_witness:
  "(1::int) \<le> 4 \<and> (4::int) \<le> 2 ^ 53 \<and>
   get_max_physical_protein_length_A 4 = Inr (F64 6417629469002956 (- 49)) \<and>
   \<bar>real_of_int 6417629469002956 * pow2 (- 49) - real_of_int (4 - 1) * 3.8\<bar>
     \<le> real_of_int (4 - 1) * 3.8 / 2 ^ 52"
proof -
  have "(1::int) \<le> 4" "(4::int) \<le> 2 ^ 53" by simp_all
  from max_physical_length [OF this] obtain m e
    where "get_max_physical_protein_length_A 4 = Inr (F64 m e)"
      and "\<bar>real_of_int m * pow2 e - real_of_int (4 - 1) * 3.8\<bar>
        \<le> real_of_int (4 - 1) * 3.8 / 2 ^ 52"
    by blast
  then show ?thesis
    by (simp add: max_physical_length_of_four)
qed

end
